theory Spec2Isabelle
  imports Main "HOL-Library.Word" "HOL-Library.Multiset"
begin

section \<open>Configuration constants\<close>

definition MaxConcurrentTasksPerRequest :: nat where
  "MaxConcurrentTasksPerRequest = 4"

text \<open>
  The record field of the limiter below is named \<^verbatim>\<open>MaxConcurrentClients\<close> too; the
  constant therefore carries a prime.
\<close>

definition MaxConcurrentClients' :: "32 word" where
  "MaxConcurrentClients' = 100"

definition MaxUrlsPerRequest :: nat where
  "MaxUrlsPerRequest = 20"

section \<open>Errors, formatting\<close>

text \<open>
  A Go \<^verbatim>\<open>error\<close> is modelled by the text its \<^verbatim>\<open>Error()\<close> method yields, which is
  all the program ever does with one (\<^verbatim>\<open>%s\<close> formatting, \<^verbatim>\<open>err.Error()\<close>); a nil
  error is \<open>None\<close>.
\<close>

type_synonym error = string

text \<open>The verb \<^verbatim>\<open>%d\<close> of \<^verbatim>\<open>fmt\<close>: decimal digits, with a minus sign when negative.\<close>

definition digit :: "nat \<Rightarrow> char" where
  "digit d = ''0123456789'' ! d"

fun decimal :: "nat \<Rightarrow> string" where
  "decimal n = (if n < 10 then [digit n] else decimal (n div 10) @ [digit (n mod 10)])"

declare decimal.simps [simp del]

definition fmt_d :: "int \<Rightarrow> string" where
  "fmt_d i = (if i < 0 then CHR ''-'' # decimal (nat (- i)) else decimal (nat i))"

section \<open>The fetch unit: downloadUrl\<close>

text \<open>
  What the outside world answers to one call of \<^verbatim>\<open>downloadUrl\<close>: building the request
  fails, or \<^verbatim>\<open>client.Do\<close> fails (connection error, timeout, cancelled context), or a
  response arrives with a status code and a body, of which \<^verbatim>\<open>ioutil.ReadAll\<close> yields
  the bytes it read and possibly an error.
\<close>

datatype transport =
    RequestError error
  | DoError error
  | Response int string "error option"

text \<open>
  The result pair \<^verbatim>\<open>([]byte, error)\<close>: a nil byte slice is \<open>None\<close>, a nil error is
  \<open>None\<close>.
\<close>

definition downloadUrl :: "transport \<Rightarrow> string option \<times> error option" where
  "downloadUrl t =
     (case t of
        RequestError err \<Rightarrow> (None, Some err)
      | DoError err \<Rightarrow> (None, Some err)
      | Response StatusCode data rerr \<Rightarrow>
          if \<not> (StatusCode \<ge> 200 \<and> StatusCode < 300) then
            (case rerr of
               Some _ \<Rightarrow> (None, Some (''status code: '' @ fmt_d StatusCode))
             | None \<Rightarrow>
                 (None, Some (''status code: '' @ fmt_d StatusCode @ '' ('' @ data @ '')'')))
          else (Some data, rerr))"


section \<open>The admission limiter: ClientLimiter\<close>

type_synonym int32 = "32 word"

record ClientLimiter =
  MaxConcurrentClients :: int32
  clientCount :: int32

text \<open>
  The three operations of \<^verbatim>\<open>sync/atomic\<close> the limiter uses, each one indivisible step
  on the shared counter. \<^verbatim>\<open>int32\<close> arithmetic wraps around; comparisons are signed.
\<close>

definition LoadInt32 :: "ClientLimiter \<Rightarrow> int32" where
  "LoadInt32 c = clientCount c"

definition CompareAndSwapInt32 :: "ClientLimiter \<Rightarrow> int32 \<Rightarrow> int32 \<Rightarrow> bool \<times> ClientLimiter" where
  "CompareAndSwapInt32 c old new =
     (if clientCount c = old then (True, c\<lparr>clientCount := new\<rparr>) else (False, c))"

definition AddInt32 :: "ClientLimiter \<Rightarrow> int32 \<Rightarrow> ClientLimiter" where
  "AddInt32 c delta = c\<lparr>clientCount := clientCount c + delta\<rparr>"

definition release :: "ClientLimiter \<Rightarrow> ClientLimiter" where
  "release c = AddInt32 c (- 1)"

subsection \<open>One caller against its environment\<close>

text \<open>
  \<^verbatim>\<open>Acquire\<close> runs while other goroutines use the same counter. What they do is the
  list \<open>es\<close>: before each atomic operation of this caller, the head of the list says
  whether the others have meanwhile left another value in the counter (\<open>Some v\<close>) or not
  (\<open>None\<close>). When the list is used up the others do nothing more.
\<close>

definition meanwhile :: "int32 option list \<Rightarrow> ClientLimiter \<Rightarrow> ClientLimiter" where
  "meanwhile es c = (case es of Some v # _ \<Rightarrow> c\<lparr>clientCount := v\<rparr> | _ \<Rightarrow> c)"

text \<open>
  The closure \<^verbatim>\<open>do\<close> of \<^verbatim>\<open>Acquire\<close>: one load, the limit check, one compare-and-swap.
  It uses up two entries of \<open>es\<close>.
\<close>

definition do_once :: "ClientLimiter \<Rightarrow> int32 option list \<Rightarrow> (bool \<times> error option) \<times> ClientLimiter" where
  "do_once c es =
     (let c1 = meanwhile es c;
          current = LoadInt32 c1
      in if sint current \<ge> sint (MaxConcurrentClients c1) then ((False, Some ''limit reached''), c1)
         else
           let c2 = meanwhile (tl es) c1;
               (ret, c3) = CompareAndSwapInt32 c2 current (current + 1)
           in ((ret, None), c3))"

function Acquire :: "ClientLimiter \<Rightarrow> int32 option list \<Rightarrow> error option \<times> ClientLimiter" where
  "Acquire c es =
     (case do_once c es of
        ((acquired, Some err), c') \<Rightarrow> (Some err, c')
      | ((acquired, None), c') \<Rightarrow> if acquired then (None, c') else Acquire c' (tl (tl es)))"
  by pat_completeness auto
termination
proof (relation "measure (\<lambda>(c, es). length es)", goal_cases)
  case 1
  show ?case by simp
next
  case (2 c es x c' acquired err)
  have "tl es \<noteq> []"
  proof
    assume "tl es = []"
    then have "meanwhile (tl es) (meanwhile es c) = meanwhile es c"
      by (simp add: meanwhile_def)
    with 2 show False
      by (auto simp: do_once_def Let_def LoadInt32_def CompareAndSwapInt32_def
          split: if_splits)
  qed
  then have "length (tl (tl es)) < length es"
    by (cases es) (auto simp: less_Suc_eq_le)
  then show ?case
    by simp
qed

declare Acquire.simps [simp del]

text \<open>
  The limiter as the others leave it just before the \<open>(j + 1)\<close>-th atomic operation of a
  caller that has not written yet: operations 0, 2, 4, ... of \<^verbatim>\<open>Acquire\<close> are its loads,
  operations 1, 3, 5, ... its compare-and-swaps, and before each of them one entry of
  \<open>es\<close> takes effect.
\<close>

fun counter_at :: "ClientLimiter \<Rightarrow> int32 option list \<Rightarrow> nat \<Rightarrow> ClientLimiter" where
  "counter_at c es 0 = meanwhile es c"
| "counter_at c es (Suc j) = counter_at (meanwhile es c) (tl es) j"

subsection \<open>Many callers on one limiter\<close>

text \<open>
  A caller is a request goroutine of \<^verbatim>\<open>onRequest\<close>, which calls \<^verbatim>\<open>Acquire\<close> and, when
  admitted, defers \<^verbatim>\<open>release\<close>. Its program points:
  \<^item> \<open>AtLoad\<close>: inside \<^verbatim>\<open>Acquire\<close>, before \<^verbatim>\<open>atomic.LoadInt32\<close>;
  \<^item> \<open>AtCAS current\<close>: the limit check has passed, before
    \<^verbatim>\<open>atomic.CompareAndSwapInt32\<close>;
  \<^item> \<open>Admitted\<close>: \<^verbatim>\<open>Acquire\<close> has returned nil, the deferred \<^verbatim>\<open>release\<close> is pending;
  \<^item> \<open>Finished\<close>: \<^verbatim>\<open>Acquire\<close> has returned its error, or \<^verbatim>\<open>release\<close> has run.
  A schedule is the list of the callers' indices in the order in which they take their
  atomic steps.
\<close>

datatype caller = AtLoad | AtCAS int32 | Admitted | Finished

record pool =
  shared :: ClientLimiter
  callers :: "caller list"

definition caller_step :: "pool \<Rightarrow> nat \<Rightarrow> pool" where
  "caller_step p t =
     (if t < length (callers p) then
        (case callers p ! t of
           AtLoad \<Rightarrow>
             (let current = LoadInt32 (shared p)
              in if sint current \<ge> sint (MaxConcurrentClients (shared p))
                 then p\<lparr>callers := (callers p)[t := Finished]\<rparr>
                 else p\<lparr>callers := (callers p)[t := AtCAS current]\<rparr>)
         | AtCAS current \<Rightarrow>
             (let (ret, c') = CompareAndSwapInt32 (shared p) current (current + 1)
              in if ret then p\<lparr>shared := c', callers := (callers p)[t := Admitted]\<rparr>
                 else p\<lparr>shared := c', callers := (callers p)[t := AtLoad]\<rparr>)
         | Admitted \<Rightarrow> p\<lparr>shared := release (shared p), callers := (callers p)[t := Finished]\<rparr>
         | Finished \<Rightarrow> p)
      else p)"

text \<open>
  The limiter as \<^verbatim>\<open>main\<close> builds it, \<^verbatim>\<open>ClientLimiter{limit, 0}\<close>, with \<open>n\<close> requests about
  to call \<^verbatim>\<open>Acquire\<close>.
\<close>

definition serve :: "int32 \<Rightarrow> nat \<Rightarrow> pool" where
  "serve limit n =
     \<lparr>shared = \<lparr>MaxConcurrentClients = limit, clientCount = 0\<rparr>, callers = replicate n AtLoad\<rparr>"

definition interleave :: "pool \<Rightarrow> nat list \<Rightarrow> pool" where
  "interleave p sched = foldl caller_step p sched"

text \<open>
  What holds of the limiter and its callers in every state they can reach: the counter is
  the number of callers admitted and not yet released, it does not exceed the limit, and a
  caller about to swap has read a value below the limit.
\<close>

definition pool_ok :: "pool \<Rightarrow> bool" where
  "pool_ok p \<longleftrightarrow>
     sint (clientCount (shared p)) = int (count_list (callers p) Admitted) \<and>
     sint (clientCount (shared p)) \<le> sint (MaxConcurrentClients (shared p)) \<and>
     (\<forall>cur. AtCAS cur \<in> set (callers p) \<longrightarrow> sint cur < sint (MaxConcurrentClients (shared p)))"

section \<open>The batch orchestrator and its worker pool: downloadUrls\<close>

record TaskResult =
  Url :: string
  Result :: string
  Err :: "error option"

text \<open>The conversion \<^verbatim>\<open>string(ret)\<close> of a byte slice; a nil slice gives the empty string.\<close>

definition string_of :: "string option \<Rightarrow> string" where
  "string_of ret = (case ret of None \<Rightarrow> [] | Some bytes \<Rightarrow> bytes)"

text \<open>
  \<^verbatim>\<open>downloadUrls\<close> runs one orchestrating goroutine and the worker goroutines it starts,
  which communicate through two buffered channels. The model is the interleaving of their
  steps on a shared state.

  Program points of the orchestrator:
  \<^item> \<open>MStart\<close>: at entry. Its step derives the cancellable context, makes the channel
    \<^verbatim>\<open>tasks\<close>, sends every URL to it, closes it and makes the channel \<^verbatim>\<open>results\<close> (no
    other goroutine of the batch exists yet);
  \<^item> \<open>MSpawn i\<close>: at the head of the loop that starts the workers, with loop variable \<open>i\<close>;
  \<^item> \<open>MCollect i ret\<close>: at the head of the collecting loop, with loop variable \<open>i\<close> and
    the slice \<open>ret\<close>;
  \<^item> \<open>MReturn r\<close>: returned the pair \<open>r\<close> (a nil slice is \<open>None\<close>, a nil error is \<open>None\<close>).

  Program points of a worker:
  \<^item> \<open>WRange\<close>: at \<^verbatim>\<open>for url := range tasks\<close>;
  \<^item> \<open>WDownload url\<close>: its call of \<^verbatim>\<open>downloadUrl\<close> for \<open>url\<close> is under way;
  \<^item> \<open>WSend r\<close>: at \<^verbatim>\<open>results <- r\<close>;
  \<^item> \<open>WExit\<close>: the loop has ended.
\<close>

datatype mstate =
    MStart
  | MSpawn nat
  | MCollect nat "TaskResult list"
  | MReturn "TaskResult list option \<times> error option"

datatype wstate = WRange | WDownload string | WSend TaskResult | WExit

text \<open>
  The shared state. \<open>tasks\<close> and \<open>results\<close> are the buffers of the two channels, oldest
  element first; \<open>tasks\<close> is closed from the first step on. \<open>contexts\<close> counts the calls
  of \<^verbatim>\<open>context.WithCancel\<close> and \<open>cancels\<close> the calls of \<^verbatim>\<open>cancelRequests\<close>. The last two
  fields are history only, no step reads them: \<open>attempted\<close> lists the URLs for which
  \<^verbatim>\<open>downloadUrl\<close> was called, \<open>emitted\<close> the values sent to \<^verbatim>\<open>results\<close>, both in order.
\<close>

record state =
  pc :: mstate
  contexts :: nat
  cancels :: nat
  tasks :: "string list"
  results :: "TaskResult list"
  workers :: "wstate list"
  attempted :: "string list"
  emitted :: "TaskResult list"

definition init :: state where
  "init = \<lparr>pc = MStart, contexts = 0, cancels = 0, tasks = [], results = [], workers = [],
           attempted = [], emitted = []\<rparr>"

text \<open>
  An action is one step of one goroutine: \<open>Main\<close> of the orchestrator, \<open>Worker w\<close> a
  channel operation of worker \<open>w\<close>, and \<open>Fetched w t\<close> the return of the call of
  \<^verbatim>\<open>downloadUrl\<close> that worker \<open>w\<close> has under way, the outside world having answered \<open>t\<close>.
\<close>

datatype action = Main | Worker nat | Fetched nat transport

text \<open>
  The steps of the orchestrator. At \<open>MCollect\<close> it receives from \<open>results\<close>; with the
  buffer empty the receive blocks and the step cannot be taken.

  The error of a failed batch:
  \<^verbatim>\<open>fmt.Errorf("failed to download Url \"%s\": %s", result.Url, result.Err)\<close>.
\<close>

definition failure :: "TaskResult \<Rightarrow> error \<Rightarrow> error" where
  "failure result err =
     ''failed to download Url '' @ [CHR 0x22] @ Url result @ [CHR 0x22] @ '': '' @ err"

definition main_step :: "string list \<Rightarrow> state \<Rightarrow> state option" where
  "main_step urls s =
     (case pc s of
        MStart \<Rightarrow>
          Some (s\<lparr>pc := MSpawn 0, contexts := contexts s + 1, tasks := urls, results := []\<rparr>)
      | MSpawn i \<Rightarrow>
          if i < MaxConcurrentTasksPerRequest
          then Some (s\<lparr>pc := MSpawn (i + 1), workers := workers s @ [WRange]\<rparr>)
          else Some (s\<lparr>pc := MCollect 0 []\<rparr>)
      | MCollect i ret \<Rightarrow>
          if i < length urls then
            (case results s of
               [] \<Rightarrow> None
             | result # rest \<Rightarrow>
                 (case Err result of
                    Some err \<Rightarrow>
                      Some (s\<lparr>pc := MReturn (None, Some (failure result err)),
                              cancels := cancels s + 1, results := rest\<rparr>)
                  | None \<Rightarrow> Some (s\<lparr>pc := MCollect (i + 1) (ret @ [result]), results := rest\<rparr>)))
          else Some (s\<lparr>pc := MReturn (Some ret, None)\<rparr>)
      | MReturn r \<Rightarrow> None)"

text \<open>
  The channel operations of a worker. Receiving from the closed channel \<open>tasks\<close> never
  blocks: it yields the oldest URL left, and ends the loop when none is left. Sending to
  \<open>results\<close>, made with capacity \<^verbatim>\<open>len(urls)\<close>, blocks while the buffer is full.
\<close>

definition worker_step :: "string list \<Rightarrow> state \<Rightarrow> nat \<Rightarrow> state option" where
  "worker_step urls s w =
     (if w < length (workers s) then
        (case workers s ! w of
           WRange \<Rightarrow>
             (case tasks s of
                [] \<Rightarrow> Some (s\<lparr>workers := (workers s)[w := WExit]\<rparr>)
              | url # rest \<Rightarrow>
                  Some (s\<lparr>tasks := rest, workers := (workers s)[w := WDownload url],
                          attempted := attempted s @ [url]\<rparr>))
         | WDownload url \<Rightarrow> None
         | WSend r \<Rightarrow>
             if length (results s) < length urls
             then Some (s\<lparr>results := results s @ [r], workers := (workers s)[w := WRange],
                          emitted := emitted s @ [r]\<rparr>)
             else None
         | WExit \<Rightarrow> None)
      else None)"

text \<open>The value a worker builds from what its call of \<^verbatim>\<open>downloadUrl\<close> returned.\<close>

definition answer :: "string \<Rightarrow> transport \<Rightarrow> TaskResult" where
  "answer url t =
     (let (ret, err) = downloadUrl t
      in \<lparr>Url = url, Result = string_of ret, Err = err\<rparr>)"

definition fetched_step :: "state \<Rightarrow> nat \<Rightarrow> transport \<Rightarrow> state option" where
  "fetched_step s w t =
     (if w < length (workers s) then
        (case workers s ! w of
           WDownload url \<Rightarrow> Some (s\<lparr>workers := (workers s)[w := WSend (answer url t)]\<rparr>)
         | _ \<Rightarrow> None)
      else None)"

text \<open>\<open>None\<close>: the goroutine cannot take the step in this state (it is blocked, or gone).\<close>

definition step :: "string list \<Rightarrow> state \<Rightarrow> action \<Rightarrow> state option" where
  "step urls s a =
     (case a of
        Main \<Rightarrow> main_step urls s
      | Worker w \<Rightarrow> worker_step urls s w
      | Fetched w t \<Rightarrow> fetched_step s w t)"

text \<open>
  A schedule is a list of actions. An action that cannot be taken leaves the state as it
  is, so every list is a schedule; the lists of all lengths give all interleavings and
  all answers of the outside world.
\<close>

definition exec :: "string list \<Rightarrow> state \<Rightarrow> action \<Rightarrow> state" where
  "exec urls s a = (case step urls s a of None \<Rightarrow> s | Some s' \<Rightarrow> s')"

definition run :: "string list \<Rightarrow> action list \<Rightarrow> state" where
  "run urls sched = foldl (exec urls) init sched"

text \<open>What \<^verbatim>\<open>downloadUrls\<close> has returned at the end of a schedule, if it has returned.\<close>

definition downloadUrls :: "string list \<Rightarrow> action list \<Rightarrow> (TaskResult list option \<times> error option) option" where
  "downloadUrls urls sched = (case pc (run urls sched) of MReturn r \<Rightarrow> Some r | _ \<Rightarrow> None)"

text \<open>
  Whether some goroutine of the batch can take a step. A call of \<^verbatim>\<open>downloadUrl\<close> under way
  counts: the client has a timeout, so the call returns.
\<close>

definition enabled :: "string list \<Rightarrow> state \<Rightarrow> bool" where
  "enabled urls s \<longleftrightarrow>
     main_step urls s \<noteq> None \<or>
     (\<exists>w \<in> set [0..<length (workers s)].
        worker_step urls s w \<noteq> None \<or> (case workers s ! w of WDownload _ \<Rightarrow> True | _ \<Rightarrow> False))"

text \<open>Every answer of the outside world in the schedule is a successful fetch.\<close>

definition succeeds :: "action \<Rightarrow> bool" where
  "succeeds a = (case a of Fetched w t \<Rightarrow> snd (downloadUrl t) = None | _ \<Rightarrow> True)"

subsection \<open>Bookkeeping for the proofs\<close>

text \<open>The URLs a worker has taken from \<open>tasks\<close> and not yet answered on \<open>results\<close>.\<close>

fun held :: "wstate \<Rightarrow> string multiset" where
  "held WRange = {#}"
| "held (WDownload url) = {#url#}"
| "held (WSend r) = {#Url r#}"
| "held WExit = {#}"

definition in_hand :: "state \<Rightarrow> string multiset" where
  "in_hand s = sum_list (map held (workers s))"

text \<open>
  An upper bound on the number of steps the goroutines of the batch can still take: every
  step makes it smaller.
\<close>

fun pc_weight :: "string list \<Rightarrow> mstate \<Rightarrow> nat" where
  "pc_weight urls MStart = 5 * length urls + 11"
| "pc_weight urls (MSpawn i) = 2 * (MaxConcurrentTasksPerRequest - i) + 2"
| "pc_weight urls (MCollect i ret) = 1"
| "pc_weight urls (MReturn r) = 0"

fun worker_weight :: "wstate \<Rightarrow> nat" where
  "worker_weight WRange = 1"
| "worker_weight (WDownload url) = 4"
| "worker_weight (WSend r) = 3"
| "worker_weight WExit = 0"

definition steps_left :: "string list \<Rightarrow> state \<Rightarrow> nat" where
  "steps_left urls s =
     pc_weight urls (pc s) + 5 * length (tasks s) + length (results s) +
     sum_list (map worker_weight (workers s))"

text \<open>
  What holds in every state the batch can reach. First the part about the queue and the
  workers, which holds from the first step on: the URLs are taken from \<open>tasks\<close> in order,
  each URL taken is in the hand of a worker or has been answered once on \<open>results\<close>, and
  a worker has left its loop only when \<open>tasks\<close> was empty.
\<close>

definition queue_ok :: "string list \<Rightarrow> state \<Rightarrow> bool" where
  "queue_ok urls s \<longleftrightarrow>
     contexts s = 1 \<and>
     attempted s @ tasks s = urls \<and>
     mset (map Url (emitted s)) + in_hand s = mset (attempted s) \<and>
     (WExit \<in> set (workers s) \<longrightarrow> tasks s = [])"

text \<open>
  Then the part about the orchestrator, by its program point: what it has received so far
  are the oldest values sent to \<open>results\<close>, in order.
\<close>

fun main_ok :: "string list \<Rightarrow> state \<Rightarrow> mstate \<Rightarrow> bool" where
  "main_ok urls s MStart \<longleftrightarrow> s = init"
| "main_ok urls s (MSpawn i) \<longleftrightarrow>
     i \<le> MaxConcurrentTasksPerRequest \<and> length (workers s) = i \<and> cancels s = 0 \<and>
     emitted s = results s"
| "main_ok urls s (MCollect i ret) \<longleftrightarrow>
     length (workers s) = MaxConcurrentTasksPerRequest \<and> cancels s = 0 \<and> i = length ret \<and>
     emitted s = ret @ results s \<and> (\<forall>x \<in> set ret. Err x = None)"
| "main_ok urls s (MReturn r) \<longleftrightarrow>
     length (workers s) = MaxConcurrentTasksPerRequest \<and>
     (case r of
        (Some ret, None) \<Rightarrow>
          cancels s = 0 \<and> length ret = length urls \<and> emitted s = ret @ results s \<and>
          (\<forall>x \<in> set ret. Err x = None)
      | (None, Some e) \<Rightarrow>
          cancels s = 1 \<and>
          (\<exists>ret x err. emitted s = ret @ x # results s \<and> (\<forall>y \<in> set ret. Err y = None) \<and>
             Err x = Some err \<and> e = failure x err)
      | _ \<Rightarrow> False)"

definition invariant :: "string list \<Rightarrow> state \<Rightarrow> bool" where
  "invariant urls s \<longleftrightarrow> main_ok urls s (pc s) \<and> (pc s \<noteq> MStart \<longrightarrow> queue_ok urls s)"

text \<open>No value on its way to the orchestrator carries an error.\<close>

definition clean :: "state \<Rightarrow> bool" where
  "clean s \<longleftrightarrow>
     (\<forall>x \<in> set (emitted s). Err x = None) \<and>
     (\<forall>x. WSend x \<in> set (workers s) \<longrightarrow> Err x = None)"

section \<open>The request handler\<close>

text \<open>
  Of a request the handler reads the method and the body; the body is what
  \<^verbatim>\<open>ioutil.ReadAll\<close> yields for it, the bytes and possibly an error.
\<close>

record request =
  Method :: string
  Body :: "string \<times> error option"

text \<open>
  \<^verbatim>\<open>json.Unmarshal\<close> belongs to the Go library, not to this program: in \<open>readRequest\<close>
  and in the handler it is the parameter \<open>unmarshal\<close>, which yields for the bytes of a
  body either an error or the value it leaves in the field \<^verbatim>\<open>Urls\<close>; the decoder of the
  library, \<open>json_Unmarshal\<close> below, is put in its place where the content of the body
  matters. A nil slice of URLs and an empty one are both \<open>[]\<close>; the program takes only
  the length of the slice and ranges over it.
\<close>

definition readRequest :: "(string \<Rightarrow> error + string list) \<Rightarrow> string \<times> error option \<Rightarrow> string list \<times> error option" where
  "readRequest unmarshal r =
     (case r of
        (data, Some err) \<Rightarrow> ([], Some err)
      | (data, None) \<Rightarrow>
          (case unmarshal data of
             Inl err \<Rightarrow> ([], Some err)
           | Inr urls \<Rightarrow> (urls, None)))"

subsection \<open>The decoder of the Go library\<close>

text \<open>
  \<^verbatim>\<open>json.Unmarshal\<close> is not code of this program. What follows is modelled from the
  documentation of the package \<^verbatim>\<open>encoding/json\<close>, for the one target the program decodes
  into, \<^verbatim>\<open>struct { Urls []string `json:"urls"` }\<close>. A JSON text is read as a value of
  the type \<open>json\<close>; how texts denote values (the JSON grammar) is the parameter \<open>parse\<close>,
  which yields the syntax error for a text that is not valid JSON.
\<close>

datatype json =
    JNull
  | JBool bool
  | JNumber string
  | JString string
  | JArray "json list"
  | JObject "(string \<times> json) list"

text \<open>
  The decoder reports a JSON value that does not fit the Go type with an
  \<^verbatim>\<open>UnmarshalTypeError\<close>, whose text names the kind of the value and the Go type.
\<close>

definition kind :: "json \<Rightarrow> string" where
  "kind j =
     (case j of
        JNull \<Rightarrow> ''null''
      | JBool b \<Rightarrow> ''bool''
      | JNumber n \<Rightarrow> ''number''
      | JString s \<Rightarrow> ''string''
      | JArray xs \<Rightarrow> ''array''
      | JObject ms \<Rightarrow> ''object'')"

definition value_error :: "json \<Rightarrow> error" where
  "value_error j =
     ''json: cannot unmarshal '' @ kind j @ '' into Go value of type struct { Urls []string '' @
     [CHR 0x22] @ ''json:'' @ [CHR 0x5C, CHR 0x22] @ ''urls'' @ [CHR 0x5C, CHR 0x22, CHR 0x22] @ '' }''"

definition field_error :: "json \<Rightarrow> string \<Rightarrow> error" where
  "field_error j type =
     ''json: cannot unmarshal '' @ kind j @ '' into Go struct field .urls of type '' @ type"

text \<open>
  A value that does not fit is skipped and decoding goes on; at the end the decoder
  returns the earliest such error.
\<close>

definition earliest :: "error option \<Rightarrow> error option \<Rightarrow> error option" where
  "earliest saved err = (case saved of None \<Rightarrow> err | Some e \<Rightarrow> Some e)"

text \<open>
  The elements of an array decoded into \<^verbatim>\<open>[]string\<close>: a string gives itself, \<^verbatim>\<open>null\<close>
  leaves the empty string, anything else is an error.
\<close>

fun decode_elems :: "json list \<Rightarrow> string list \<times> error option" where
  "decode_elems [] = ([], None)"
| "decode_elems (x # xs) =
     (let (us, err) = decode_elems xs
      in case x of
           JString s \<Rightarrow> (s # us, err)
         | JNull \<Rightarrow> ([] # us, err)
         | _ \<Rightarrow> ([] # us, Some (field_error x ''string'')))"

text \<open>
  The members of an object, in order, with the value of \<^verbatim>\<open>Urls\<close> so far and the error
  saved so far. \<open>key k\<close> says whether the decoder takes the key \<open>k\<close> for the field
  \<^verbatim>\<open>urls\<close>: it does so for \<^verbatim>\<open>urls\<close> and for every key equal to it up to letter case.
  For such a member \<^verbatim>\<open>null\<close> changes nothing, an array replaces the slice, and any other
  value is an error; other members are ignored.
\<close>

fun decode_members :: "(string \<Rightarrow> bool) \<Rightarrow> (string \<times> json) list \<Rightarrow> string list \<Rightarrow> error option \<Rightarrow> error + string list" where
  "decode_members key [] urls saved = (case saved of None \<Rightarrow> Inr urls | Some e \<Rightarrow> Inl e)"
| "decode_members key ((k, v) # ms) urls saved =
     (if key k then
        (case v of
           JNull \<Rightarrow> decode_members key ms urls saved
         | JArray xs \<Rightarrow>
             (let (us, err) = decode_elems xs
              in decode_members key ms us (earliest saved err))
         | _ \<Rightarrow> decode_members key ms urls (earliest saved (Some (field_error v ''[]string''))))
      else decode_members key ms urls saved)"

text \<open>
  The whole value: \<^verbatim>\<open>null\<close> changes nothing, an object is decoded member by member, and
  an array, a string, a number or a boolean cannot be decoded into the struct.
\<close>

definition decode_request :: "(string \<Rightarrow> bool) \<Rightarrow> json \<Rightarrow> error + string list" where
  "decode_request key j =
     (case j of
        JNull \<Rightarrow> Inr []
      | JObject ms \<Rightarrow> decode_members key ms [] None
      | _ \<Rightarrow> Inl (value_error j))"

definition json_Unmarshal :: "(string \<Rightarrow> error + json) \<Rightarrow> (string \<Rightarrow> bool) \<Rightarrow> string \<Rightarrow> error + string list" where
  "json_Unmarshal parse key data =
     (case parse data of Inl err \<Rightarrow> Inl err | Inr j \<Rightarrow> decode_request key j)"

text \<open>
  Two conditions on the JSON value of a body. \<open>without_urls\<close> reads "lacks a field
  \<^verbatim>\<open>urls\<close>, or its \<^verbatim>\<open>urls\<close> is null" by the letter: no member has the key \<^verbatim>\<open>urls\<close> with a
  value other than \<^verbatim>\<open>null\<close>. \<open>lacks_urls\<close> is the condition under which the decoder leaves
  \<^verbatim>\<open>Urls\<close> nil without an error: the value is \<^verbatim>\<open>null\<close>, or an object whose members with
  a key taken for the field all have the value \<^verbatim>\<open>null\<close>.
\<close>

definition without_urls :: "json \<Rightarrow> bool" where
  "without_urls j =
     (case j of
        JObject ms \<Rightarrow> list_all (\<lambda>(k, v). k \<noteq> ''urls'' \<or> v = JNull) ms
      | _ \<Rightarrow> True)"

definition lacks_urls :: "(string \<Rightarrow> bool) \<Rightarrow> json \<Rightarrow> bool" where
  "lacks_urls key j =
     (case j of
        JNull \<Rightarrow> True
      | JObject ms \<Rightarrow> list_all (\<lambda>(k, v). \<not> key k \<or> v = JNull) ms
      | _ \<Rightarrow> False)"

text \<open>
  The map handed to \<^verbatim>\<open>jsonResponse\<close>: \<open>Failure reason\<close> is
  \<^verbatim>\<open>{"success": false, "reason": reason}\<close> and \<open>Success ret\<close> is
  \<^verbatim>\<open>{"success": true, "result": ret}\<close>.
\<close>

datatype payload = Failure string | Success "TaskResult list option"

text \<open>
  What one run of the handler has done: the status it wrote with \<^verbatim>\<open>WriteHeader\<close> if any,
  the response, the limiter it leaves, and the URL list it passed to \<^verbatim>\<open>downloadUrls\<close> if
  it called it.
\<close>

record handled =
  header :: "int option"
  response :: payload
  limiter :: ClientLimiter
  batch :: "string list option"

text \<open>
  The handler with its environment: \<open>es\<close> is what the other requests do to the limiter
  while \<^verbatim>\<open>Acquire\<close> runs, \<open>sched\<close> the schedule of the batch. The result is \<open>None\<close> when
  \<^verbatim>\<open>downloadUrls\<close> has not returned at the end of \<open>sched\<close>. The deferred \<^verbatim>\<open>release\<close> runs
  on every return after a successful \<^verbatim>\<open>Acquire\<close>; the limiter of the result is this
  request's own effect on the one it was given.
\<close>

definition onRequest :: "(string \<Rightarrow> error + string list) \<Rightarrow> request \<Rightarrow> ClientLimiter \<Rightarrow> int32 option list \<Rightarrow> action list \<Rightarrow> handled option" where
  "onRequest unmarshal r c es sched =
     (if Method r \<noteq> ''POST'' then
        Some \<lparr>header = Some 400, response = Failure ''Method not supported'', limiter = c,
              batch = None\<rparr>
      else
        (case Acquire c es of
           (Some err, c') \<Rightarrow>
             Some \<lparr>header = Some 503, response = Failure ''Max parallel requests reached'',
                   limiter = c', batch = None\<rparr>
         | (None, c') \<Rightarrow>
             (case readRequest unmarshal (Body r) of
                (urls, Some err) \<Rightarrow>
                  Some \<lparr>header = None, response = Failure err, limiter = release c',
                        batch = None\<rparr>
              | (urls, None) \<Rightarrow>
                  if length urls > MaxUrlsPerRequest then
                    Some \<lparr>header = None,
                          response = Failure ''Number of urls exceeds the maximum'',
                          limiter = release c', batch = None\<rparr>
                  else
                    (case downloadUrls urls sched of
                       None \<Rightarrow> None
                     | Some (ret, Some err) \<Rightarrow>
                         Some \<lparr>header = None, response = Failure err, limiter = release c',
                               batch = Some urls\<rparr>
                     | Some (ret, None) \<Rightarrow>
                         Some \<lparr>header = None, response = Success ret, limiter = release c',
                               batch = Some urls\<rparr>))))"

section \<open>Example schedules\<close>

text \<open>
  A batch of two URLs, both answered with status 200: workers 0 and 1 take one URL each
  while the orchestrator is still starting workers.
\<close>

definition two_fetched :: "action list" where
  "two_fetched =
     [Main, Main, Worker 0, Main, Fetched 0 (Response 200 ''A'' None), Main, Main, Main,
      Worker 1, Worker 0, Fetched 1 (Response 200 ''B'' None), Worker 1, Main, Worker 0,
      Main, Main]"

text \<open>The same batch run to its end: the remaining workers find the queue empty and leave.\<close>

definition two_done :: "action list" where
  "two_done = two_fetched @ [Worker 1, Worker 2, Worker 3]"

text \<open>
  A batch of two URLs of which the first is answered with status 500; the orchestrator has
  started all workers and stands before its first receive.
\<close>

definition one_failed :: "action list" where
  "one_failed =
     [Main, Main, Worker 0, Fetched 0 (Response 500 ''boom'' None), Worker 0, Main, Main,
      Main, Main]"

text \<open>
  For the examples of request bodies: the keys the decoder takes for the field \<^verbatim>\<open>urls\<close>
  among keys of ASCII letters, which are those equal to it up to letter case; the body
  \<^verbatim>\<open>{"URLS":["http://a"]}\<close>; and the reading of the four JSON texts the examples use.
\<close>

definition ascii_upper :: "char \<Rightarrow> char" where
  "ascii_upper c =
     (case map_of (zip ''abcdefghijklmnopqrstuvwxyz'' ''ABCDEFGHIJKLMNOPQRSTUVWXYZ'') c of
        Some u \<Rightarrow> u
      | None \<Rightarrow> c)"

definition urls_key :: "string \<Rightarrow> bool" where
  "urls_key k \<longleftrightarrow> map ascii_upper k = ''URLS''"

definition upper_case_body :: string where
  "upper_case_body =
     ''{'' @ [CHR 0x22] @ ''URLS'' @ [CHR 0x22] @ '':['' @ [CHR 0x22] @ ''http://a'' @ [CHR 0x22] @ '']}''"

definition reads :: "string \<Rightarrow> error + json" where
  "reads data =
     (if data = ''[]'' then Inr (JArray [])
      else if data = ''{}'' then Inr (JObject [])
      else if data = ''null'' then Inr JNull
      else if data = upper_case_body then Inr (JObject [(''URLS'', JArray [JString ''http://a''])])
      else Inl ''invalid character'')"

section \<open>Properties of the fetch unit\<close>

lemma decimal_500: "decimal 500 = ''500''"
  by (simp add: decimal.simps [of 500] decimal.simps [of 50] decimal.simps [of 5] digit_def)

text \<open>
  C6. A response whose status code lies outside [200,300) makes \<open>downloadUrl\<close> fail with
  no body (a nil slice): when the error body was read without error, the error text is the
  status code followed by the body's content in parentheses; when reading the error body
  failed, the error text is the status code alone.
\<close>

theorem downloadUrl_bad_status:
  assumes "\<not> (200 \<le> code \<and> code < 300)"
  shows "downloadUrl (Response code data None) =
           (None, Some (''status code: '' @ fmt_d code @ '' ('' @ data @ '')'')) \<and>
         downloadUrl (Response code data (Some rerr)) =
           (None, Some (''status code: '' @ fmt_d code))"
  using assms by (simp add: downloadUrl_def)

theorem downloadUrl_bad_status_witness:
  "\<not> (200 \<le> (500::int) \<and> (500::int) < 300) \<and>
   downloadUrl (Response 500 ''boom'' None) = (None, Some ''status code: 500 (boom)'') \<and>
   downloadUrl (Response 500 ''boom'' (Some ''unexpected EOF'')) = (None, Some ''status code: 500'')"
  using downloadUrl_bad_status [of 500 "''boom''" "''unexpected EOF''"]
  by (simp add: fmt_d_def decimal_500)

section \<open>Properties of the batch orchestrator\<close>


lemma held_update:
  "w < length ws \<Longrightarrow> sum_list (map held (ws[w := x])) + held (ws ! w) = sum_list (map held ws) + held x"
  by (induction ws arbitrary: w) (auto split: nat.splits)

lemma weight_update_add:
  "w < length ws \<Longrightarrow>
   sum_list (map worker_weight (ws[w := x])) + worker_weight (ws ! w) =
   sum_list (map worker_weight ws) + worker_weight x"
  by (induction ws arbitrary: w) (auto split: nat.splits)

lemma weight_update:
  "w < length ws \<Longrightarrow>
   sum_list (map worker_weight (ws[w := x])) =
   sum_list (map worker_weight ws) + worker_weight x - worker_weight (ws ! w)"
  using weight_update_add [of w ws x] by arith

lemma weight_le:
  "w < length ws \<Longrightarrow> worker_weight (ws ! w) \<le> sum_list (map worker_weight ws)"
  by (simp add: member_le_sum_list)

lemma steps_left_main:
  "main_step urls s = Some s' \<Longrightarrow> steps_left urls s' < steps_left urls s"
  by (auto simp: main_step_def steps_left_def MaxConcurrentTasksPerRequest_def
      split: mstate.splits if_splits list.splits option.splits)

lemma steps_left_worker:
  assumes "worker_step urls s w = Some s'"
  shows "steps_left urls s' < steps_left urls s"
proof -
  from assms have w: "w < length (workers s)"
    by (auto simp: worker_step_def split: if_splits)
  from assms w weight_le [OF w] show ?thesis
    by (auto simp: worker_step_def steps_left_def weight_update
        split: wstate.splits if_splits list.splits)
qed

lemma steps_left_fetched:
  assumes "fetched_step s w t = Some s'"
  shows "steps_left urls s' < steps_left urls s"
proof -
  from assms have w: "w < length (workers s)"
    by (auto simp: fetched_step_def split: if_splits)
  from assms w weight_le [OF w] show ?thesis
    by (auto simp: fetched_step_def steps_left_def weight_update
        split: wstate.splits if_splits list.splits prod.splits)
qed

lemma steps_left_step:
  "step urls s a = Some s' \<Longrightarrow> steps_left urls s' < steps_left urls s"
  by (cases a) (auto simp: step_def intro: steps_left_main steps_left_worker steps_left_fetched)

lemma queue_ok_size:
  assumes "queue_ok urls s"
  shows "length (emitted s) + size (in_hand s) + length (tasks s) = length urls"
proof -
  from assms have a: "attempted s @ tasks s = urls"
    and b: "mset (map Url (emitted s)) + in_hand s = mset (attempted s)"
    by (simp_all add: queue_ok_def)
  from b have "size (mset (map Url (emitted s)) + in_hand s) = size (mset (attempted s))"
    by simp
  then have "length (emitted s) + size (in_hand s) = length (attempted s)"
    by simp
  moreover from a have "length (attempted s) + length (tasks s) = length urls"
    by (metis length_append)
  ultimately show ?thesis by simp
qed

lemma invariant_init: "invariant urls init"
  by (simp add: invariant_def init_def)

lemma invariant_main:
  assumes "invariant urls s" and "main_step urls s = Some s'"
  shows "invariant urls s'"
proof (cases "pc s")
  case MStart
  with assms show ?thesis
    by (auto simp: invariant_def main_step_def init_def queue_ok_def in_hand_def)
next
  case (MSpawn i)
  with assms show ?thesis
    by (auto simp: invariant_def main_step_def queue_ok_def in_hand_def
        split: if_splits)
next
  case (MCollect i ret)
  with assms have q: "queue_ok urls s" and m: "main_ok urls s (MCollect i ret)"
    by (simp_all add: invariant_def)
  show ?thesis
  proof (cases "i < length urls")
    case True
    with assms MCollect q m show ?thesis
      by (auto simp: invariant_def main_step_def queue_ok_def in_hand_def
          split: list.splits option.splits)
  next
    case False
    from m have "length ret \<le> length (emitted s)" by simp
    with queue_ok_size [OF q] False m have "length ret = length urls" by simp
    with assms MCollect q m False show ?thesis
      by (auto simp: invariant_def main_step_def queue_ok_def in_hand_def)
  qed
next
  case (MReturn r)
  with assms show ?thesis by (simp add: main_step_def)
qed

lemma in_hand_update:
  "workers s' = (workers s)[w := x] \<Longrightarrow> w < length (workers s) \<Longrightarrow>
   in_hand s' + held (workers s ! w) = in_hand s + held x"
  by (simp add: in_hand_def held_update)

lemma main_ok_frame:
  assumes "emitted s' = emitted s" "results s' = results s" "cancels s' = cancels s"
    "length (workers s') = length (workers s)" "p \<noteq> MStart"
  shows "main_ok urls s' p = main_ok urls s p"
  using assms by (cases p) (auto split: prod.splits option.splits)

lemma main_ok_send:
  assumes "main_ok urls s p" "p \<noteq> MStart"
  shows "main_ok urls (s\<lparr>results := results s @ [r], workers := ws, emitted := emitted s @ [r]\<rparr>) p
         \<or> length ws \<noteq> length (workers s)"
  using assms by (cases p) (auto split: prod.splits option.splits)

lemma invariant_started:
  assumes "invariant urls s" "w < length (workers s)"
  shows "pc s \<noteq> MStart" "queue_ok urls s" "main_ok urls s (pc s)"
  using assms by (auto simp: invariant_def init_def)

lemma invariant_worker:
  assumes "invariant urls s" and "worker_step urls s w = Some s'"
  shows "invariant urls s'"
proof -
  from assms have w: "w < length (workers s)"
    by (auto simp: worker_step_def split: if_splits)
  note st = invariant_started [OF assms(1) w]
  from st(2) have q: "contexts s = 1" "attempted s @ tasks s = urls"
    "mset (map Url (emitted s)) + in_hand s = mset (attempted s)"
    "WExit \<in> set (workers s) \<Longrightarrow> tasks s = []"
    by (simp_all add: queue_ok_def)
  show ?thesis
  proof (cases "workers s ! w")
    case WRange
    show ?thesis
    proof (cases "tasks s")
      case Nil
      with assms w WRange have s': "s' = s\<lparr>workers := (workers s)[w := WExit]\<rparr>"
        by (simp add: worker_step_def)
      from in_hand_update [OF _ w, of s' WExit] WRange have "in_hand s' = in_hand s"
        by (simp add: s')
      with q Nil have "queue_ok urls s'"
        by (simp add: queue_ok_def s')
      moreover have "main_ok urls s' (pc s) = main_ok urls s (pc s)"
        by (rule main_ok_frame) (simp_all add: s' st)
      ultimately show ?thesis using st by (simp add: invariant_def s')
    next
      case (Cons url rest)
      with assms w WRange have s': "s' = s\<lparr>tasks := rest, workers := (workers s)[w := WDownload url],
          attempted := attempted s @ [url]\<rparr>"
        by (simp add: worker_step_def)
      from in_hand_update [OF _ w, of s' "WDownload url"] WRange
      have "in_hand s' = in_hand s + {#url#}"
        by (simp add: s')
      moreover have "WExit \<notin> set ((workers s)[w := WDownload url])"
        using q(4) Cons set_update_subset_insert [of "workers s" w "WDownload url"] by auto
      ultimately have "queue_ok urls s'"
        using q Cons by (simp add: queue_ok_def s')
      moreover have "main_ok urls s' (pc s) = main_ok urls s (pc s)"
        by (rule main_ok_frame) (simp_all add: s' st)
      ultimately show ?thesis using st by (simp add: invariant_def s')
    qed
  next
    case (WDownload url)
    with assms w show ?thesis by (simp add: worker_step_def)
  next
    case (WSend r)
    with assms w have s': "s' = s\<lparr>results := results s @ [r], workers := (workers s)[w := WRange],
        emitted := emitted s @ [r]\<rparr>"
      by (simp add: worker_step_def split: if_splits)
    have f: "emitted s' = emitted s @ [r]" "tasks s' = tasks s" "attempted s' = attempted s"
      "contexts s' = contexts s" "workers s' = (workers s)[w := WRange]"
      by (simp_all add: s')
    from in_hand_update [OF f(5) w] WSend
    have ih: "in_hand s = in_hand s' + {#Url r#}"
      by simp
    have "WExit \<in> set ((workers s)[w := WRange]) \<Longrightarrow> WExit \<in> set (workers s)"
      using set_update_subset_insert [of "workers s" w WRange] by auto
    with q ih have "queue_ok urls s'"
      unfolding queue_ok_def f by auto
    moreover have "main_ok urls s' (pc s)"
      using main_ok_send [OF st(3) st(1), of r "(workers s)[w := WRange]"] by (simp add: s')
    ultimately show ?thesis using st by (simp add: invariant_def s')
  next
    case WExit
    with assms w show ?thesis by (simp add: worker_step_def)
  qed
qed

lemma fetched_stepD:
  assumes "fetched_step s w t = Some s'"
  shows "w < length (workers s) \<and>
         (\<exists>url. workers s ! w = WDownload url \<and>
            s' = s\<lparr>workers := (workers s)[w := WSend (answer url t)]\<rparr>)"
  using assms
  by (auto simp: fetched_step_def answer_def split: if_splits wstate.splits prod.splits)

lemma invariant_fetched:
  assumes "invariant urls s" and "fetched_step s w t = Some s'"
  shows "invariant urls s'"
proof -
  from assms have w: "w < length (workers s)"
    by (auto simp: fetched_step_def split: if_splits)
  note st = invariant_started [OF assms(1) w]
  from fetched_stepD [OF assms(2)] obtain url where d: "workers s ! w = WDownload url"
    and s'': "s' = s\<lparr>workers := (workers s)[w := WSend (answer url t)]\<rparr>"
    by blast
  define r where "r = answer url t"
  have r: "Url r = url" by (simp add: r_def answer_def split: prod.splits)
  have s': "s' = s\<lparr>workers := (workers s)[w := WSend r]\<rparr>"
    by (simp add: s'' r_def)
  from in_hand_update [OF _ w, of s' "WSend r"] d r have "in_hand s' = in_hand s"
    by (simp add: s')
  moreover have "WExit \<in> set ((workers s)[w := WSend r]) \<Longrightarrow> WExit \<in> set (workers s)"
    using set_update_subset_insert [of "workers s" w "WSend r"] by auto
  ultimately have "queue_ok urls s'"
    using st(2) by (auto simp: queue_ok_def s')
  moreover have "main_ok urls s' (pc s) = main_ok urls s (pc s)"
    by (rule main_ok_frame) (simp_all add: s' st)
  ultimately show ?thesis using st by (simp add: invariant_def s')
qed

lemma invariant_exec:
  assumes "invariant urls s"
  shows "invariant urls (exec urls s a)"
proof (cases "step urls s a")
  case None
  with assms show ?thesis by (simp add: exec_def)
next
  case (Some s')
  with assms have "invariant urls s'"
    by (cases a) (auto simp: step_def intro: invariant_main invariant_worker invariant_fetched)
  with Some show ?thesis by (simp add: exec_def)
qed

lemma invariant_foldl: "invariant urls s \<Longrightarrow> invariant urls (foldl (exec urls) s sched)"
  by (induction sched arbitrary: s) (simp_all add: invariant_exec)

lemma invariant_run: "invariant urls (run urls sched)"
  by (simp add: run_def invariant_foldl invariant_init)

lemma clean_init: "clean init"
  by (simp add: clean_def init_def)

lemma clean_main:
  "clean s \<Longrightarrow> main_step urls s = Some s' \<Longrightarrow> clean s'"
  by (auto simp: clean_def main_step_def
      split: mstate.splits if_splits list.splits option.splits)

lemma in_set_update:
  "y \<in> set (ws[w := x]) \<Longrightarrow> y = x \<or> y \<in> set ws"
  using set_update_subset_insert [of ws w x] by auto

lemma clean_worker:
  assumes "clean s" and "worker_step urls s w = Some s'"
  shows "clean s'"
proof -
  from assms have w: "w < length (workers s)"
    by (auto simp: worker_step_def split: if_splits)
  then have "workers s ! w \<in> set (workers s)" by simp
  with assms show ?thesis
    by (auto simp: clean_def worker_step_def dest!: in_set_update
        split: wstate.splits if_splits list.splits)
qed

lemma clean_fetched:
  assumes "clean s" and "fetched_step s w t = Some s'" and "snd (downloadUrl t) = None"
  shows "clean s'"
proof -
  from assms(3) have "Err (answer url t) = None" for url
    by (cases "downloadUrl t") (simp add: answer_def)
  with assms(1) fetched_stepD [OF assms(2)] show ?thesis
    by (auto simp: clean_def dest!: in_set_update)
qed

lemma clean_exec:
  assumes "clean s" and "succeeds a"
  shows "clean (exec urls s a)"
proof (cases "step urls s a")
  case None
  with assms show ?thesis by (simp add: exec_def)
next
  case (Some s')
  with assms have "clean s'"
    by (cases a) (auto simp: step_def succeeds_def intro: clean_main clean_worker clean_fetched)
  with Some show ?thesis by (simp add: exec_def)
qed

lemma clean_foldl:
  "clean s \<Longrightarrow> list_all succeeds sched \<Longrightarrow> clean (foldl (exec urls) s sched)"
  by (induction sched arbitrary: s) (simp_all add: clean_exec)

lemma clean_run: "list_all succeeds sched \<Longrightarrow> clean (run urls sched)"
  by (simp add: run_def clean_foldl clean_init)

lemma in_hand_all_exit:
  assumes "\<forall>x \<in> set (workers s). x = WExit"
  shows "in_hand s = {#}"
proof -
  have "\<forall>x \<in> set ws. x = WExit \<Longrightarrow> sum_list (map held ws) = {#}" for ws
    by (induction ws) auto
  with assms show ?thesis by (simp add: in_hand_def)
qed

lemma worker_can_step:
  assumes "w < length (workers s)" "workers s ! w \<noteq> WExit" "length (results s) < length urls"
  shows "worker_step urls s w \<noteq> None \<or> (\<exists>url. workers s ! w = WDownload url)"
  using assms by (auto simp: worker_step_def split: wstate.splits list.splits)

lemma enabled_iff:
  "enabled urls s \<longleftrightarrow>
     main_step urls s \<noteq> None \<or>
     (\<exists>w < length (workers s).
        worker_step urls s w \<noteq> None \<or> (\<exists>url. workers s ! w = WDownload url))"
proof -
  have "(case x of WDownload _ \<Rightarrow> True | _ \<Rightarrow> False) \<longleftrightarrow> (\<exists>url. x = WDownload url)" for x
    by (cases x) simp_all
  then show ?thesis
    by (auto simp: enabled_def)
qed

lemma stuck_returned:
  assumes inv: "invariant urls s" and stuck: "\<not> enabled urls s"
  shows "\<exists>r. pc s = MReturn r"
proof (cases "pc s")
  case MStart
  with stuck show ?thesis by (simp add: enabled_def main_step_def)
next
  case (MSpawn i)
  with stuck show ?thesis by (simp add: enabled_def main_step_def split: if_splits)
next
  case (MCollect i ret)
  with inv have q: "queue_ok urls s" and m: "main_ok urls s (MCollect i ret)"
    by (simp_all add: invariant_def)
  from stuck MCollect have i: "i < length urls" and e: "results s = []"
    by (auto simp: enabled_def main_step_def split: if_splits list.splits option.splits)
  have "x = WExit" if "x \<in> set (workers s)" for x
  proof (rule ccontr)
    assume x: "x \<noteq> WExit"
    from that obtain w where w: "w < length (workers s)" "workers s ! w = x"
      by (auto simp: in_set_conv_nth)
    from e i have "length (results s) < length urls" by auto
    with x w worker_can_step [of w s urls]
    have "worker_step urls s w \<noteq> None \<or> (\<exists>url. workers s ! w = WDownload url)"
      by blast
    with w(1) stuck show False
      by (auto simp: enabled_iff)
  qed
  then have all: "\<forall>x \<in> set (workers s). x = WExit" by blast
  from m have "workers s \<noteq> []"
    by (auto simp: MaxConcurrentTasksPerRequest_def)
  with all have "WExit \<in> set (workers s)"
    by (cases "workers s") auto
  with q have "tasks s = []" by (simp add: queue_ok_def)
  with queue_ok_size [OF q] in_hand_all_exit [OF all] have "length (emitted s) = length urls"
    by simp
  with m e i show ?thesis by simp
next
  case (MReturn r)
  then show ?thesis by simp
qed

lemma enabled_step:
  assumes "enabled urls s"
  shows "\<exists>a s'. succeeds a \<and> step urls s a = Some s'"
proof -
  from assms have "main_step urls s \<noteq> None \<or>
      (\<exists>w < length (workers s). worker_step urls s w \<noteq> None \<or>
         (\<exists>url. workers s ! w = WDownload url))"
    by (simp add: enabled_iff)
  then consider "main_step urls s \<noteq> None"
    | w where "w < length (workers s)" "worker_step urls s w \<noteq> None"
    | w url where "w < length (workers s)" "workers s ! w = WDownload url"
    by blast
  then show ?thesis
  proof cases
    case 1
    then have "succeeds Main \<and> (\<exists>s'. step urls s Main = Some s')"
      by (auto simp: succeeds_def step_def)
    then show ?thesis by blast
  next
    case 2
    then have "succeeds (Worker w) \<and> (\<exists>s'. step urls s (Worker w) = Some s')"
      by (auto simp: succeeds_def step_def)
    then show ?thesis by blast
  next
    case 3
    then have "succeeds (Fetched w (Response 200 [] None)) \<and>
      (\<exists>s'. step urls s (Fetched w (Response 200 [] None)) = Some s')"
      by (auto simp: succeeds_def step_def fetched_step_def downloadUrl_def)
    then show ?thesis by blast
  qed
qed

lemma can_return:
  assumes "invariant urls s"
  shows "\<exists>ext. list_all succeeds ext \<and> (\<exists>r. pc (foldl (exec urls) s ext) = MReturn r)"
  using assms
proof (induction "steps_left urls s" arbitrary: s rule: less_induct)
  case less
  show ?case
  proof (cases "enabled urls s")
    case False
    with less.prems stuck_returned have "\<exists>r. pc (foldl (exec urls) s []) = MReturn r"
      by simp
    then show ?thesis
      by (intro exI [of _ "[]"]) simp
  next
    case True
    from enabled_step [OF True] obtain a s' where a: "succeeds a" "step urls s a = Some s'"
      by blast
    then have e: "exec urls s a = s'" by (simp add: exec_def)
    with less.prems have "invariant urls s'"
      using invariant_exec by metis
    moreover from a have "steps_left urls s' < steps_left urls s"
      by (simp add: steps_left_step)
    ultimately obtain ext r where "list_all succeeds ext" "pc (foldl (exec urls) s' ext) = MReturn r"
      using less.hyps by blast
    with a e have "list_all succeeds (a # ext) \<and> pc (foldl (exec urls) s (a # ext)) = MReturn r"
      by simp
    then show ?thesis by blast
  qed
qed

lemma run_append: "run urls (sched @ ext) = foldl (exec urls) (run urls sched) ext"
  by (simp add: run_def)

lemma returned_ok:
  assumes inv: "invariant urls s" and ret: "pc s = MReturn (Some ret, None)"
  shows "mset (map Url ret) = mset urls \<and> length ret = length urls \<and>
         list_all (\<lambda>x. Err x = None) ret \<and> emitted s = ret \<and> attempted s = urls"
proof -
  from inv ret have q: "queue_ok urls s" and m: "main_ok urls s (MReturn (Some ret, None))"
    by (simp_all add: invariant_def)
  from m have l: "length ret = length urls" and e: "emitted s = ret @ results s"
    and c: "\<forall>x \<in> set ret. Err x = None"
    by simp_all
  from queue_ok_size [OF q] l e have z: "results s = []" "size (in_hand s) = 0" "tasks s = []"
    by simp_all
  with q e have "mset (map Url ret) = mset urls" "attempted s = urls"
    by (simp_all add: queue_ok_def)
  with l c e z show ?thesis
    by (simp add: list_all_iff)
qed

lemma returned_cases:
  assumes inv: "invariant urls s" and ret: "pc s = MReturn r"
  shows "(\<exists>ret. r = (Some ret, None)) \<or>
         (\<exists>x err. r = (None, Some (failure x err)) \<and> x \<in> set (emitted s) \<and> Err x = Some err)"
proof -
  from inv ret have m: "main_ok urls s (MReturn r)"
    by (simp add: invariant_def)
  obtain a b where r: "r = (a, b)" by (cases r)
  show ?thesis
  proof (cases a)
    case None
    with m r show ?thesis
      by (cases b) fastforce+
  next
    case (Some ret)
    with m r show ?thesis
      by (cases b) auto
  qed
qed

text \<open>
  C1. Take any schedule in which every call of \<open>downloadUrl\<close> succeeds, whatever the
  interleaving of the goroutines and the order in which the results arrive. If
  \<open>downloadUrls\<close> has returned, it has returned a nil error and a list with exactly one
  value per input URL (the URLs of the list are the input URLs, as multisets), none of
  which carries an error. And it does return: when no goroutine can take a step it has
  returned, the schedule can always be continued until it returns, and every step
  uses up one of a finite number of steps left.
\<close>

theorem downloadUrls_all_succeed:
  assumes "list_all succeeds sched"
  shows "(\<forall>r. downloadUrls urls sched = Some r \<longrightarrow>
            (\<exists>ret. r = (Some ret, None) \<and> mset (map Url ret) = mset urls \<and>
               length ret = length urls \<and> list_all (\<lambda>x. Err x = None) ret)) \<and>
         (\<not> enabled urls (run urls sched) \<longrightarrow> downloadUrls urls sched \<noteq> None) \<and>
         (\<exists>ext. list_all succeeds ext \<and> downloadUrls urls (sched @ ext) \<noteq> None) \<and>
         (\<forall>a s'. step urls (run urls sched) a = Some s' \<longrightarrow>
            steps_left urls s' < steps_left urls (run urls sched))"
proof (intro conjI allI impI)
  fix r
  assume "downloadUrls urls sched = Some r"
  then have pc: "pc (run urls sched) = MReturn r"
    by (simp add: downloadUrls_def split: mstate.splits)
  from clean_run [OF assms] have "\<forall>x \<in> set (emitted (run urls sched)). Err x = None"
    by (simp add: clean_def)
  with returned_cases [OF invariant_run pc] obtain ret where r: "r = (Some ret, None)"
    by fastforce
  with returned_ok [OF invariant_run] pc
  show "\<exists>ret. r = (Some ret, None) \<and> mset (map Url ret) = mset urls \<and>
    length ret = length urls \<and> list_all (\<lambda>x. Err x = None) ret"
    by blast
next
  assume "\<not> enabled urls (run urls sched)"
  with stuck_returned [OF invariant_run] show "downloadUrls urls sched \<noteq> None"
    by (fastforce simp: downloadUrls_def)
next
  from can_return [OF invariant_run] obtain ext r where
    "list_all succeeds ext" "pc (foldl (exec urls) (run urls sched) ext) = MReturn r"
    by blast
  then have "list_all succeeds ext \<and> downloadUrls urls (sched @ ext) \<noteq> None"
    by (simp add: downloadUrls_def run_append)
  then show "\<exists>ext. list_all succeeds ext \<and> downloadUrls urls (sched @ ext) \<noteq> None"
    by blast
next
  fix a s'
  assume "step urls (run urls sched) a = Some s'"
  then show "steps_left urls s' < steps_left urls (run urls sched)"
    by (rule steps_left_step)
qed

lemmas evaluate =
  downloadUrls_def run_def exec_def step_def main_step_def worker_step_def fetched_step_def
  init_def answer_def downloadUrl_def string_of_def MaxConcurrentTasksPerRequest_def

theorem downloadUrls_all_succeed_witness:
  "list_all succeeds two_fetched \<and>
   downloadUrls [''a'', ''b''] two_fetched =
     Some (Some [\<lparr>Url = ''a'', Result = ''A'', Err = None\<rparr>,
                 \<lparr>Url = ''b'', Result = ''B'', Err = None\<rparr>], None) \<and>
   mset (map Url [\<lparr>Url = ''a'', Result = ''A'', Err = None\<rparr>,
                  \<lparr>Url = ''b'', Result = ''B'', Err = None\<rparr>]) = mset [''a'', ''b'']"
proof -
  have h: "list_all succeeds two_fetched"
    by (simp add: two_fetched_def succeeds_def downloadUrl_def)
  have e: "downloadUrls [''a'', ''b''] two_fetched =
     Some (Some [\<lparr>Url = ''a'', Result = ''A'', Err = None\<rparr>,
                 \<lparr>Url = ''b'', Result = ''B'', Err = None\<rparr>], None)"
    by (simp add: two_fetched_def evaluate)
  from downloadUrls_all_succeed [OF h, of "[''a'', ''b'']"] e
  have "mset (map Url [\<lparr>Url = ''a'', Result = ''A'', Err = None\<rparr>,
                  \<lparr>Url = ''b'', Result = ''B'', Err = None\<rparr>]) = mset [''a'', ''b'']"
    by auto
  with h e show ?thesis by simp
qed

lemma held_size_le:
  "w < length ws \<Longrightarrow> size (held (ws ! w)) \<le> size (sum_list (map held ws))"
  by (induction ws arbitrary: w) (auto split: nat.splits simp: nth_Cons le_SucI trans_le_add2)

lemma results_le_emitted:
  assumes "invariant urls s"
  shows "length (results s) \<le> length (emitted s)"
proof (cases "pc s")
  case (MReturn r)
  with assms have m: "main_ok urls s (MReturn r)" by (simp add: invariant_def)
  obtain a b where "r = (a, b)" by (cases r)
  with m show ?thesis
    by (cases a; cases b) auto
qed (use assms in \<open>auto simp: invariant_def init_def\<close>)

lemma send_never_blocks:
  assumes inv: "invariant urls s" and w: "w < length (workers s)" "workers s ! w = WSend r"
  shows "length (results s) < length urls"
proof -
  from invariant_started [OF inv w(1)] have q: "queue_ok urls s" by simp
  from held_size_le [OF w(1)] w(2) have "1 \<le> size (in_hand s)"
    by (simp add: in_hand_def)
  with queue_ok_size [OF q] results_le_emitted [OF inv] show ?thesis
    by simp
qed

lemma stuck_all_exit:
  assumes inv: "invariant urls s" and stuck: "\<not> enabled urls s"
  shows "\<forall>x \<in> set (workers s). x = WExit"
proof
  fix x
  assume "x \<in> set (workers s)"
  then obtain w where w: "w < length (workers s)" "workers s ! w = x"
    by (auto simp: in_set_conv_nth)
  from stuck w(1) have n: "worker_step urls s w = None" "\<And>url. workers s ! w \<noteq> WDownload url"
    by (auto simp: enabled_iff)
  show "x = WExit"
  proof (cases x)
    case WRange
    with w n(1) show ?thesis
      by (simp add: worker_step_def split: list.splits)
  next
    case (WDownload url)
    with w n(2) show ?thesis by simp
  next
    case (WSend r)
    with send_never_blocks [OF inv w(1)] w n(1) show ?thesis
      by (simp add: worker_step_def)
  qed
qed

lemma stuck_drained:
  assumes inv: "invariant urls s" and stuck: "\<not> enabled urls s"
  shows "attempted s = urls \<and> mset (map Url (emitted s)) = mset urls"
proof -
  from stuck_returned [OF inv stuck] obtain r where r: "pc s = MReturn r" by blast
  with inv have q: "queue_ok urls s" and "main_ok urls s (MReturn r)"
    by (simp_all add: invariant_def)
  then have "workers s \<noteq> []"
    by (auto simp: MaxConcurrentTasksPerRequest_def)
  with stuck_all_exit [OF inv stuck] have "WExit \<in> set (workers s)"
    by (cases "workers s") auto
  with q in_hand_all_exit [OF stuck_all_exit [OF inv stuck]] show ?thesis
    by (auto simp: queue_ok_def)
qed

text \<open>
  C7. In every state a batch can reach: the URLs for which \<open>downloadUrl\<close> has been called
  are, in order, exactly those no longer in the task queue, so each URL is attempted once
  when it is taken and never again; the values sent to \<open>results\<close> together with the URLs
  still in the hands of workers are exactly the URLs taken, so each URL taken gives one
  value carrying it; the orchestrator at its collecting loop has received as many values
  as its loop counter says, the oldest ones sent; and when it returns success it has
  received exactly \<open>length urls\<close> values, all that were sent. When no goroutine can take
  a step any more, every URL has been attempted and answered exactly once.
\<close>

theorem every_url_once:
  "attempted (run urls sched) @ tasks (run urls sched) =
     (if pc (run urls sched) = MStart then [] else urls) \<and>
   mset (map Url (emitted (run urls sched))) + in_hand (run urls sched) =
     mset (attempted (run urls sched)) \<and>
   (\<forall>i ret. pc (run urls sched) = MCollect i ret \<longrightarrow>
      i = length ret \<and> emitted (run urls sched) = ret @ results (run urls sched)) \<and>
   (\<forall>ret. downloadUrls urls sched = Some (Some ret, None) \<longrightarrow>
      length ret = length urls \<and> emitted (run urls sched) = ret) \<and>
   (\<not> enabled urls (run urls sched) \<longrightarrow>
      attempted (run urls sched) = urls \<and>
      mset (map Url (emitted (run urls sched))) = mset urls)"
proof -
  define s where "s = run urls sched"
  have inv: "invariant urls s"
    by (simp add: s_def invariant_run)
  have a: "attempted s @ tasks s = (if pc s = MStart then [] else urls)"
    using inv by (auto simp: invariant_def queue_ok_def init_def)
  have b: "mset (map Url (emitted s)) + in_hand s = mset (attempted s)"
    using inv by (cases "pc s = MStart") (auto simp: invariant_def queue_ok_def init_def in_hand_def)
  have c: "i = length ret \<and> emitted s = ret @ results s" if "pc s = MCollect i ret" for i ret
    using inv that by (simp add: invariant_def)
  have d: "length ret = length urls \<and> emitted s = ret"
    if "downloadUrls urls sched = Some (Some ret, None)" for ret
  proof -
    from that have "pc s = MReturn (Some ret, None)"
      by (simp add: downloadUrls_def s_def split: mstate.splits)
    with returned_ok [OF inv] show ?thesis by simp
  qed
  have e: "attempted s = urls \<and> mset (map Url (emitted s)) = mset urls" if "\<not> enabled urls s"
    using stuck_drained [OF inv that] .
  from a b c d e show ?thesis
    unfolding s_def by blast
qed

lemma pc_exec_worker [simp]: "pc (exec urls s (Worker w)) = pc s"
  by (auto simp: exec_def step_def worker_step_def
      split: option.splits if_splits wstate.splits list.splits)

lemma pc_exec_fetched [simp]: "pc (exec urls s (Fetched w t)) = pc s"
  by (auto simp: exec_def step_def fetched_step_def
      split: option.splits if_splits wstate.splits)

lemma cancels_exec_worker [simp]: "cancels (exec urls s (Worker w)) = cancels s"
  by (auto simp: exec_def step_def worker_step_def
      split: option.splits if_splits wstate.splits list.splits)

lemma cancels_exec_fetched [simp]: "cancels (exec urls s (Fetched w t)) = cancels s"
  by (auto simp: exec_def step_def fetched_step_def
      split: option.splits if_splits wstate.splits)


lemma results_exec_fetched [simp]: "results (exec urls s (Fetched w t)) = results s"
  by (auto simp: exec_def step_def fetched_step_def
      split: option.splits if_splits wstate.splits)

lemma exec_main_returned [simp]: "pc s = MReturn r \<Longrightarrow> exec urls s Main = s"
  by (simp add: exec_def step_def main_step_def)


lemma pc_empty:
  "pc (run [] sched) =
     (let k = count_list sched Main
      in if k = 0 then MStart
         else if k \<le> 5 then MSpawn (k - 1)
         else if k = 6 then MCollect 0 []
         else MReturn (Some [], None))"
proof (induction sched rule: rev_induct)
  case Nil
  show ?case by (simp add: run_def init_def)
next
  case (snoc a sched)
  have r: "run [] (sched @ [a]) = exec [] (run [] sched) a"
    by (simp add: run_def)
  show ?case
  proof (cases a)
    case Main
    with snoc r show ?thesis
      by (auto simp: Let_def exec_def step_def main_step_def MaxConcurrentTasksPerRequest_def
          split: if_splits)
  next
    case (Worker w)
    with snoc r show ?thesis by simp
  next
    case (Fetched w t)
    with snoc r show ?thesis by simp
  qed
qed

text \<open>
  C8. For the empty batch \<open>downloadUrls\<close> has returned as soon as the orchestrator has taken
  seven steps of its own (the set-up, four workers started, the end of that loop, the
  return), whatever the workers do or do not do in between: it never waits for them. It
  returns a nil error and an empty list, and no call of \<open>downloadUrl\<close> and no send to
  \<open>results\<close> ever happens.
\<close>

theorem empty_batch:
  "downloadUrls [] sched = (if 7 \<le> count_list sched Main then Some (Some [], None) else None) \<and>
   attempted (run [] sched) = [] \<and> emitted (run [] sched) = []"
proof -
  have "downloadUrls [] sched = (if 7 \<le> count_list sched Main then Some (Some [], None) else None)"
    by (simp add: downloadUrls_def pc_empty Let_def)
  moreover have "attempted (run [] sched) = [] \<and> emitted (run [] sched) = []"
    using invariant_run [of "[]" sched]
    by (cases "pc (run [] sched) = MStart") (auto simp: invariant_def init_def queue_ok_def)
  ultimately show ?thesis by simp
qed







lemma run_two_done:
  "run [''a'', ''b''] two_done =
     \<lparr>pc = MReturn (Some [\<lparr>Url = ''a'', Result = ''A'', Err = None\<rparr>,
                           \<lparr>Url = ''b'', Result = ''B'', Err = None\<rparr>], None),
      contexts = 1, cancels = 0, tasks = [], results = [],
      workers = [WExit, WExit, WExit, WExit], attempted = [''a'', ''b''],
      emitted = [\<lparr>Url = ''a'', Result = ''A'', Err = None\<rparr>,
                 \<lparr>Url = ''b'', Result = ''B'', Err = None\<rparr>]\<rparr>"
  by (simp add: two_done_def two_fetched_def evaluate)

lemma run_one_failed:
  "run [''a'', ''b''] one_failed =
     \<lparr>pc = MCollect 0 [], contexts = 1, cancels = 0, tasks = [''b''],
      results = [\<lparr>Url = ''a'', Result = [], Err = Some ''status code: 500 (boom)''\<rparr>],
      workers = [WRange, WRange, WRange, WRange], attempted = [''a''],
      emitted = [\<lparr>Url = ''a'', Result = [], Err = Some ''status code: 500 (boom)''\<rparr>]\<rparr>"
  by (simp add: one_failed_def evaluate fmt_d_def decimal_500)

theorem every_url_once_witness:
  "downloadUrls [''a'', ''b''] two_done =
     Some (Some [\<lparr>Url = ''a'', Result = ''A'', Err = None\<rparr>,
                 \<lparr>Url = ''b'', Result = ''B'', Err = None\<rparr>], None) \<and>
   \<not> enabled [''a'', ''b''] (run [''a'', ''b''] two_done) \<and>
   attempted (run [''a'', ''b''] two_done) = [''a'', ''b''] \<and>
   mset (map Url (emitted (run [''a'', ''b''] two_done))) = mset [''a'', ''b''] \<and>
   pc (run [''a'', ''b''] one_failed) = MCollect 0 [] \<and>
   emitted (run [''a'', ''b''] one_failed) = [] @ results (run [''a'', ''b''] one_failed)"
proof -
  have d: "downloadUrls [''a'', ''b''] two_done =
     Some (Some [\<lparr>Url = ''a'', Result = ''A'', Err = None\<rparr>,
                 \<lparr>Url = ''b'', Result = ''B'', Err = None\<rparr>], None)"
    by (simp add: downloadUrls_def run_two_done)
  have n: "\<not> enabled [''a'', ''b''] (run [''a'', ''b''] two_done)"
    by (simp add: run_two_done enabled_def main_step_def worker_step_def)
  have c: "pc (run [''a'', ''b''] one_failed) = MCollect 0 []"
    by (simp add: run_one_failed)
  from every_url_once [of "[''a'', ''b'']" two_done] n
  have "attempted (run [''a'', ''b''] two_done) = [''a'', ''b''] \<and>
    mset (map Url (emitted (run [''a'', ''b''] two_done))) = mset [''a'', ''b'']"
    by blast
  moreover from every_url_once [of "[''a'', ''b'']" one_failed] c
  have "emitted (run [''a'', ''b''] one_failed) = [] @ results (run [''a'', ''b''] one_failed)"
    by blast
  ultimately show ?thesis using d n c by blast
qed

theorem empty_batch_witness:
  "downloadUrls [] [Main, Main, Main, Main, Main, Main, Main] = Some (Some [], None) \<and>
   downloadUrls [] [Main, Worker 0, Main, Main, Worker 1, Main, Main, Main] = None"
  using empty_batch [of "[Main, Main, Main, Main, Main, Main, Main]"]
    empty_batch [of "[Main, Worker 0, Main, Main, Worker 1, Main, Main, Main]"]
  by simp




section \<open>Properties of the admission limiter\<close>

lemma sint_succ:
  fixes x y :: int32
  assumes "sint x < sint y"
  shows "sint (x + 1) = sint x + 1"
proof -
  have "sint y < 2 ^ 31" using sint_lt [of y] by simp
  with assms have "sint x + 1 < 2 ^ 31" by simp
  moreover have "- (2 ^ 31) \<le> sint x + 1" using sint_ge [of x] by simp
  ultimately have "signed_take_bit 31 (sint x + 1) = sint x + 1"
    by (simp add: signed_take_bit_int_eq_self)
  then show ?thesis
    by (simp add: sint_word_ariths)
qed

lemma sint_pred:
  fixes x :: int32
  assumes "0 < sint x"
  shows "sint (x - 1) = sint x - 1"
proof -
  have "sint x - 1 < 2 ^ 31" using sint_lt [of x] by simp
  moreover have "- (2 ^ 31) \<le> sint x - 1" using assms by simp
  ultimately have "signed_take_bit 31 (sint x - 1) = sint x - 1"
    by (simp add: signed_take_bit_int_eq_self)
  then show ?thesis
    by (simp add: sint_word_ariths)
qed

lemma Acquire_quiet:
  "Acquire c [] =
     (if sint (MaxConcurrentClients c) \<le> sint (clientCount c) then (Some ''limit reached'', c)
      else (None, c\<lparr>clientCount := clientCount c + 1\<rparr>))"
  by (simp add: Acquire.simps [of c "[]"] do_once_def meanwhile_def LoadInt32_def
      CompareAndSwapInt32_def)

lemma meanwhile_cases:
  "meanwhile es c = c \<or> (\<exists>v. Some v \<in> set es \<and> meanwhile es c = c\<lparr>clientCount := v\<rparr>)"
  by (auto simp: meanwhile_def split: list.splits option.splits)

lemma set_tl: "x \<in> set (tl es) \<Longrightarrow> x \<in> set es"
  by (cases es) auto

lemma seen_refl: "c = c\<lparr>clientCount := clientCount c\<rparr>"
  by simp

lemma do_once_cases:
  assumes "meanwhile es c = c\<lparr>clientCount := v1\<rparr>"
    and "meanwhile (tl es) (c\<lparr>clientCount := v1\<rparr>) = c\<lparr>clientCount := v2\<rparr>"
  shows "do_once c es =
     (if sint v1 \<ge> sint (MaxConcurrentClients c)
      then ((False, Some ''limit reached''), c\<lparr>clientCount := v1\<rparr>)
      else if v2 = v1 then ((True, None), c\<lparr>clientCount := v1 + 1\<rparr>)
      else ((False, None), c\<lparr>clientCount := v2\<rparr>))"
  using assms by (simp add: do_once_def Let_def LoadInt32_def CompareAndSwapInt32_def)

lemma Acquire_general:
  "\<exists>cur. Some cur \<in> set (Some (clientCount c) # es) \<and>
     Acquire c es =
       (if sint (MaxConcurrentClients c) \<le> sint cur
        then (Some ''limit reached'', c\<lparr>clientCount := cur\<rparr>)
        else (None, c\<lparr>clientCount := cur + 1\<rparr>))"
proof (induction c es rule: Acquire.induct)
  case (1 c es)
  from meanwhile_cases [of es c] obtain v1 where v1: "Some v1 \<in> set (Some (clientCount c) # es)"
    "meanwhile es c = c\<lparr>clientCount := v1\<rparr>"
    by (metis seen_refl list.set_intros(1,2))
  from meanwhile_cases [of "tl es" "c\<lparr>clientCount := v1\<rparr>"] v1(1) obtain v2 where
    v2: "Some v2 \<in> set (Some (clientCount c) # es)"
    "meanwhile (tl es) (c\<lparr>clientCount := v1\<rparr>) = c\<lparr>clientCount := v2\<rparr>"
    by (auto dest: set_tl)
  note d = do_once_cases [OF v1(2) v2(2)]
  show ?case
  proof (cases "sint v1 \<ge> sint (MaxConcurrentClients c)")
    case True
    with d have "Acquire c es = (Some ''limit reached'', c\<lparr>clientCount := v1\<rparr>)"
      by (simp add: Acquire.simps [of c es])
    with True v1(1) show ?thesis by (intro exI [of _ v1]) simp
  next
    case False
    show ?thesis
    proof (cases "v2 = v1")
      case True
      with False d have "Acquire c es = (None, c\<lparr>clientCount := v1 + 1\<rparr>)"
        by (simp add: Acquire.simps [of c es])
      with False v1(1) show ?thesis by (intro exI [of _ v1]) simp
    next
      case ne: False
      define c2 where "c2 = c\<lparr>clientCount := v2\<rparr>"
      from ne False d have d': "do_once c es = ((False, None), c2)"
        by (simp add: c2_def)
      then have a: "Acquire c es = Acquire c2 (tl (tl es))"
        by (simp add: Acquire.simps [of c es])
      have "\<not> False" by simp
      from "1.IH" [OF d' [symmetric] refl refl this] obtain cur' where
        c': "Some cur' \<in> set (Some (clientCount c2) # tl (tl es))"
        and r: "Acquire c2 (tl (tl es)) =
          (if sint (MaxConcurrentClients c2) \<le> sint cur'
           then (Some ''limit reached'', c2\<lparr>clientCount := cur'\<rparr>)
           else (None, c2\<lparr>clientCount := cur' + 1\<rparr>))"
        by blast
      from c' v2(1) have "Some cur' \<in> set (Some (clientCount c) # es)"
        by (auto simp: c2_def dest: set_tl)
      moreover from r a have "Acquire c es =
          (if sint (MaxConcurrentClients c) \<le> sint cur'
           then (Some ''limit reached'', c\<lparr>clientCount := cur'\<rparr>)
           else (None, c\<lparr>clientCount := cur' + 1\<rparr>))"
        by (simp add: c2_def)
      ultimately show ?thesis by blast
    qed
  qed
qed

lemma meanwhile_limit [simp]: "MaxConcurrentClients (meanwhile es c) = MaxConcurrentClients c"
  by (simp add: meanwhile_def split: list.splits option.splits)

lemma counter_at_limit [simp]: "MaxConcurrentClients (counter_at c es j) = MaxConcurrentClients c"
  by (induction j arbitrary: c es) simp_all

lemma do_once_at:
  "do_once c es =
     (if sint (clientCount (counter_at c es 0)) \<ge> sint (MaxConcurrentClients c)
      then ((False, Some ''limit reached''), counter_at c es 0)
      else if clientCount (counter_at c es 1) = clientCount (counter_at c es 0)
      then ((True, None), (counter_at c es 1)\<lparr>clientCount := clientCount (counter_at c es 1) + 1\<rparr>)
      else ((False, None), counter_at c es 1))"
  by (simp add: do_once_def Let_def LoadInt32_def CompareAndSwapInt32_def)

lemma Acquire_at:
  "\<exists>j. (\<forall>i < j. if even i
            then sint (clientCount (counter_at c es i)) < sint (MaxConcurrentClients c)
            else clientCount (counter_at c es i) \<noteq> clientCount (counter_at c es (i - 1))) \<and>
       (if even j
        then sint (MaxConcurrentClients c) \<le> sint (clientCount (counter_at c es j)) \<and>
             Acquire c es = (Some ''limit reached'', counter_at c es j)
        else clientCount (counter_at c es j) = clientCount (counter_at c es (j - 1)) \<and>
             Acquire c es =
               (None, (counter_at c es j)\<lparr>clientCount := clientCount (counter_at c es j) + 1\<rparr>))"
  (is "\<exists>j. ?P c es j")
proof (induction c es rule: Acquire.induct)
  case (1 c es)
  note d = do_once_at [of c es]
  show ?case
  proof (cases "sint (clientCount (counter_at c es 0)) \<ge> sint (MaxConcurrentClients c)")
    case True
    with d have "Acquire c es = (Some ''limit reached'', counter_at c es 0)"
      by (simp add: Acquire.simps [of c es])
    with True have "?P c es 0" by simp
    then show ?thesis by blast
  next
    case False
    show ?thesis
    proof (cases "clientCount (counter_at c es 1) = clientCount (counter_at c es 0)")
      case True
      with False d have "Acquire c es =
          (None, (counter_at c es 1)\<lparr>clientCount := clientCount (counter_at c es 1) + 1\<rparr>)"
        by (simp add: Acquire.simps [of c es])
      with True False have "?P c es 1"
        by (simp add: less_Suc_eq)
      then show ?thesis by blast
    next
      case ne: False
      define c2 where "c2 = counter_at c es 1"
      from ne False d have d': "do_once c es = ((False, None), c2)"
        by (simp add: c2_def)
      then have a: "Acquire c es = Acquire c2 (tl (tl es))"
        by (simp add: Acquire.simps [of c es])
      have shift: "counter_at c es (Suc (Suc i)) = counter_at c2 (tl (tl es)) i" for i
        by (simp add: c2_def)
      have "\<not> False" by simp
      from "1.IH" [OF d' [symmetric] refl refl this] obtain j where j: "?P c2 (tl (tl es)) j"
        by blast
      have l: "MaxConcurrentClients c2 = MaxConcurrentClients c"
        by (simp add: c2_def)
      have "?P c es (Suc (Suc j))"
      proof (intro conjI allI impI)
        fix i
        assume i: "i < Suc (Suc j)"
        show "if even i
            then sint (clientCount (counter_at c es i)) < sint (MaxConcurrentClients c)
            else clientCount (counter_at c es i) \<noteq> clientCount (counter_at c es (i - 1))"
        proof (cases i)
          case 0
          with False show ?thesis by simp
        next
          case (Suc i1)
          show ?thesis
          proof (cases i1)
            case 0
            with Suc ne show ?thesis by simp
          next
            case (Suc i')
            with \<open>i = Suc i1\<close> i have i': "i' < j" "i = Suc (Suc i')" by simp_all
            from j i'(1) have "if even i'
              then sint (clientCount (counter_at c2 (tl (tl es)) i')) < sint (MaxConcurrentClients c2)
              else clientCount (counter_at c2 (tl (tl es)) i') \<noteq>
                   clientCount (counter_at c2 (tl (tl es)) (i' - 1))"
              by blast
            moreover have "odd i' \<Longrightarrow> counter_at c es (Suc i') = counter_at c2 (tl (tl es)) (i' - 1)"
              using shift [of "i' - 1"] by (cases i') auto
            ultimately show ?thesis
              unfolding i'(2) shift l by (auto split: if_splits)
          qed
        qed
      next
        have "odd j \<Longrightarrow> counter_at c es (Suc j) = counter_at c2 (tl (tl es)) (j - 1)"
          using shift [of "j - 1"] by (cases j) auto
        with j a show "if even (Suc (Suc j))
          then sint (MaxConcurrentClients c) \<le> sint (clientCount (counter_at c es (Suc (Suc j)))) \<and>
               Acquire c es = (Some ''limit reached'', counter_at c es (Suc (Suc j)))
          else clientCount (counter_at c es (Suc (Suc j))) =
                 clientCount (counter_at c es (Suc (Suc j) - 1)) \<and>
               Acquire c es =
                 (None, (counter_at c es (Suc (Suc j)))
                    \<lparr>clientCount := clientCount (counter_at c es (Suc (Suc j))) + 1\<rparr>)"
          unfolding shift l by (auto split: if_splits)
      qed
      then show ?thesis by blast
    qed
  qed
qed



text \<open>
  C3. When no other goroutine touches the counter while \<open>Acquire\<close> runs, it returns the
  error \<^verbatim>\<open>limit reached\<close> and leaves the counter alone if the counter has reached
  \<open>MaxConcurrentClients\<close>, and otherwise returns nil with the counter one higher. Whatever
  the other goroutines do meanwhile (the list \<open>es\<close>), \<open>Acquire\<close> returns with its \<open>j\<close>-th
  atomic operation, for some \<open>j\<close>, and up to then it has neither given up below the limit
  nor swapped over a changed counter: every load before read a value below the limit and
  every compare-and-swap before found the counter changed since its load. If the last
  operation is a load, the counter it reads has reached the limit, and \<open>Acquire\<close> fails
  and leaves the counter as the others left it. If it is a compare-and-swap, the counter
  still holds the value the load before it read, below the limit, and \<open>Acquire\<close>
  succeeds and leaves exactly that counter plus one, without wrap-around: no write of
  another goroutine is lost. \<open>Acquire\<close> is a total function: it never waits.
\<close>

theorem Acquire_limit:
  "Acquire c [] =
     (if sint (MaxConcurrentClients c) \<le> sint (clientCount c)
      then (Some ''limit reached'', c)
      else (None, c\<lparr>clientCount := clientCount c + 1\<rparr>)) \<and>
   (\<exists>j. (\<forall>i < j. if even i
             then sint (clientCount (counter_at c es i)) < sint (MaxConcurrentClients c)
             else clientCount (counter_at c es i) \<noteq> clientCount (counter_at c es (i - 1))) \<and>
        (if even j
         then sint (MaxConcurrentClients c) \<le> sint (clientCount (counter_at c es j)) \<and>
              Acquire c es = (Some ''limit reached'', counter_at c es j)
         else clientCount (counter_at c es j) = clientCount (counter_at c es (j - 1)) \<and>
              sint (clientCount (counter_at c es j)) < sint (MaxConcurrentClients c) \<and>
              sint (clientCount (counter_at c es j) + 1) = sint (clientCount (counter_at c es j)) + 1 \<and>
              Acquire c es =
                (None, (counter_at c es j)\<lparr>clientCount := clientCount (counter_at c es j) + 1\<rparr>)))"
proof -
  from Acquire_at [of c es] obtain j where
    m: "\<forall>i < j. if even i
             then sint (clientCount (counter_at c es i)) < sint (MaxConcurrentClients c)
             else clientCount (counter_at c es i) \<noteq> clientCount (counter_at c es (i - 1))"
    and r: "if even j
        then sint (MaxConcurrentClients c) \<le> sint (clientCount (counter_at c es j)) \<and>
             Acquire c es = (Some ''limit reached'', counter_at c es j)
        else clientCount (counter_at c es j) = clientCount (counter_at c es (j - 1)) \<and>
             Acquire c es =
               (None, (counter_at c es j)\<lparr>clientCount := clientCount (counter_at c es j) + 1\<rparr>)"
    by blast
  have b: "sint (clientCount (counter_at c es j)) < sint (MaxConcurrentClients c) \<and>
      sint (clientCount (counter_at c es j) + 1) = sint (clientCount (counter_at c es j)) + 1"
    if o: "odd j"
  proof -
    from o have "j - 1 < j" "even (j - 1)" by (cases j; simp)+
    with m have "sint (clientCount (counter_at c es (j - 1))) < sint (MaxConcurrentClients c)"
      by (metis (full_types))
    moreover from r o have "clientCount (counter_at c es j) = clientCount (counter_at c es (j - 1))"
      by simp
    ultimately have "sint (clientCount (counter_at c es j)) < sint (MaxConcurrentClients c)"
      by simp
    with sint_succ show ?thesis by blast
  qed
  have "if even j
         then sint (MaxConcurrentClients c) \<le> sint (clientCount (counter_at c es j)) \<and>
              Acquire c es = (Some ''limit reached'', counter_at c es j)
         else clientCount (counter_at c es j) = clientCount (counter_at c es (j - 1)) \<and>
              sint (clientCount (counter_at c es j)) < sint (MaxConcurrentClients c) \<and>
              sint (clientCount (counter_at c es j) + 1) = sint (clientCount (counter_at c es j)) + 1 \<and>
              Acquire c es =
                (None, (counter_at c es j)\<lparr>clientCount := clientCount (counter_at c es j) + 1\<rparr>)"
    using r b by (cases "even j") simp_all
  with m Acquire_quiet [of c] show ?thesis by blast
qed


lemma count_update_add:
  "t < length xs \<Longrightarrow>
   count_list (xs[t := v]) a + (if xs ! t = a then 1 else 0) =
   count_list xs a + (if v = a then 1 else 0)"
proof (induction xs arbitrary: t)
  case Nil
  then show ?case by simp
next
  case (Cons x xs)
  show ?case
  proof (cases t)
    case 0
    then show ?thesis by simp
  next
    case (Suc t')
    with Cons.prems Cons.IH [of t'] show ?thesis by (auto split: if_splits)
  qed
qed

lemma count_update:
  "t < length xs \<Longrightarrow>
   int (count_list (xs[t := v]) a) =
   int (count_list xs a) - (if xs ! t = a then 1 else 0) + (if v = a then 1 else 0)"
  using count_update_add [of t xs v a] by (simp split: if_splits)

lemma count_pos: "t < length xs \<Longrightarrow> xs ! t = a \<Longrightarrow> 0 < count_list xs a"
  by (metis count_list_0_iff nth_mem not_gr_zero)

lemma pool_ok_step:
  assumes "pool_ok p"
  shows "pool_ok (caller_step p t) \<and>
         MaxConcurrentClients (shared (caller_step p t)) = MaxConcurrentClients (shared p)"
proof (cases "t < length (callers p)")
  case False
  with assms show ?thesis by (simp add: caller_step_def)
next
  case t: True
  from assms have c: "sint (clientCount (shared p)) = int (count_list (callers p) Admitted)"
    and l: "sint (clientCount (shared p)) \<le> sint (MaxConcurrentClients (shared p))"
    and a: "\<And>cur. AtCAS cur \<in> set (callers p) \<Longrightarrow> sint cur < sint (MaxConcurrentClients (shared p))"
    by (simp_all add: pool_ok_def)
  note u = count_update [OF t, of _ Admitted]
  show ?thesis
  proof (cases "callers p ! t")
    case AtLoad
    with t c l a u show ?thesis
      by (auto simp: caller_step_def pool_ok_def Let_def LoadInt32_def dest!: in_set_update)
  next
    case (AtCAS current)
    with t have "AtCAS current \<in> set (callers p)"
      by (metis nth_mem)
    from a [OF this] have lt: "sint current < sint (MaxConcurrentClients (shared p))" .
    from sint_succ [OF lt] have s: "sint (current + 1) = sint current + 1" .
    from AtCAS t c l a u lt s show ?thesis
      by (auto simp: caller_step_def pool_ok_def CompareAndSwapInt32_def dest!: in_set_update)
  next
    case Admitted
    with count_pos [OF t] c have "0 < sint (clientCount (shared p))" by simp
    from sint_pred [OF this] have s: "sint (clientCount (shared p) - 1) = sint (clientCount (shared p)) - 1" .
    from Admitted t c l a u s show ?thesis
      by (auto simp: caller_step_def pool_ok_def release_def AddInt32_def dest!: in_set_update)
  next
    case Finished
    with t assms show ?thesis by (simp add: caller_step_def)
  qed
qed

lemma pool_ok_foldl:
  "pool_ok p \<Longrightarrow>
   pool_ok (foldl caller_step p sched) \<and>
   MaxConcurrentClients (shared (foldl caller_step p sched)) = MaxConcurrentClients (shared p)"
proof (induction sched arbitrary: p)
  case Nil
  then show ?case by simp
next
  case (Cons t sched)
  from pool_ok_step [OF Cons.prems, of t] Cons.IH [of "caller_step p t"] show ?case
    by simp
qed

lemma pool_ok_serve: "0 \<le> sint limit \<Longrightarrow> pool_ok (serve limit n)"
  by (simp add: pool_ok_def serve_def)

text \<open>
  C4. Start \<open>n\<close> callers on a limiter with a limit that is not negative and the counter
  at 0, each calling \<open>Acquire\<close> and releasing only after \<open>Acquire\<close> has admitted it. For
  every interleaving of their atomic steps the counter stays between 0 and the limit,
  and equals the number of callers admitted and not yet released.
\<close>

theorem counter_in_range:
  assumes "0 \<le> sint limit"
  shows "0 \<le> sint (clientCount (shared (interleave (serve limit n) sched))) \<and>
         sint (clientCount (shared (interleave (serve limit n) sched))) \<le> sint limit \<and>
         sint (clientCount (shared (interleave (serve limit n) sched))) =
           int (count_list (callers (interleave (serve limit n) sched)) Admitted)"
proof -
  from pool_ok_foldl [OF pool_ok_serve [OF assms], of n sched]
  have "pool_ok (interleave (serve limit n) sched)"
    and "MaxConcurrentClients (shared (interleave (serve limit n) sched)) = limit"
    by (simp_all add: interleave_def serve_def)
  then show ?thesis
    by (simp add: pool_ok_def)
qed

lemma Acquire_contended:
  "Acquire \<lparr>MaxConcurrentClients = 100, clientCount = 0\<rparr> [None, Some 50] =
     (None, \<lparr>MaxConcurrentClients = 100, clientCount = 51\<rparr>)"
  by (simp add: Acquire.simps [of _ "[None, Some 50]"] do_once_def meanwhile_def LoadInt32_def
      CompareAndSwapInt32_def Acquire_quiet)

lemma succeeded_at:
  assumes "\<exists>j. M j \<and>
      (if even j then P j \<and> A = (Some e, X j)
       else q1 j \<and> q2 j \<and> q3 j \<and> A = (None, Y j))"
    and "A = (None, y)"
  shows "\<exists>j. odd j \<and> q1 j \<and> q2 j \<and> Y j = y"
  using assms by (auto split: if_splits)

theorem Acquire_limit_witness:
  "Acquire \<lparr>MaxConcurrentClients = 100, clientCount = 100\<rparr> [] =
     (Some ''limit reached'', \<lparr>MaxConcurrentClients = 100, clientCount = 100\<rparr>) \<and>
   Acquire \<lparr>MaxConcurrentClients = 100, clientCount = 99\<rparr> [] =
     (None, \<lparr>MaxConcurrentClients = 100, clientCount = 100\<rparr>) \<and>
   Acquire \<lparr>MaxConcurrentClients = 100, clientCount = 0\<rparr> [None, Some 50] =
     (None, \<lparr>MaxConcurrentClients = 100, clientCount = 51\<rparr>) \<and>
   (\<exists>j. odd j \<and>
      clientCount (counter_at \<lparr>MaxConcurrentClients = 100, clientCount = 0\<rparr> [None, Some 50] j) =
      clientCount (counter_at \<lparr>MaxConcurrentClients = 100, clientCount = 0\<rparr> [None, Some 50] (j - 1)) \<and>
      sint (clientCount (counter_at \<lparr>MaxConcurrentClients = 100, clientCount = 0\<rparr> [None, Some 50] j))
        < sint (MaxConcurrentClients \<lparr>MaxConcurrentClients = 100, clientCount = 0\<rparr>) \<and>
      (counter_at \<lparr>MaxConcurrentClients = 100, clientCount = 0\<rparr> [None, Some 50] j)
        \<lparr>clientCount :=
           clientCount (counter_at \<lparr>MaxConcurrentClients = 100, clientCount = 0\<rparr> [None, Some 50] j) + 1\<rparr> =
      \<lparr>MaxConcurrentClients = 100, clientCount = 51\<rparr>)"
proof -
  note t = Acquire_limit [of "\<lparr>MaxConcurrentClients = 100, clientCount = 0\<rparr>" "[None, Some 50]"]
  from succeeded_at [OF conjunct2 [OF t] Acquire_contended]
    Acquire_contended
    Acquire_limit [of "\<lparr>MaxConcurrentClients = 100, clientCount = 100\<rparr>" "[]"]
    Acquire_limit [of "\<lparr>MaxConcurrentClients = 100, clientCount = 99\<rparr>" "[]"]
  show ?thesis by simp
qed

theorem counter_in_range_witness:
  "0 \<le> sint (1 :: int32) \<and>
   interleave (serve 1 2) [0, 1, 0, 1, 1] =
     \<lparr>shared = \<lparr>MaxConcurrentClients = 1, clientCount = 1\<rparr>, callers = [Admitted, Finished]\<rparr> \<and>
   0 \<le> sint (clientCount (shared (interleave (serve 1 2) [0, 1, 0, 1, 1]))) \<and>
   sint (clientCount (shared (interleave (serve 1 2) [0, 1, 0, 1, 1]))) \<le> sint (1 :: int32) \<and>
   0 \<le> sint MaxConcurrentClients' \<and>
   sint (clientCount (shared (interleave (serve MaxConcurrentClients' 3) [0, 1, 0, 2, 1, 2, 0]))) \<le> 100"
proof -
  have h: "0 \<le> sint (1 :: int32)" by simp
  have e: "interleave (serve 1 2) [0, 1, 0, 1, 1] =
     \<lparr>shared = \<lparr>MaxConcurrentClients = 1, clientCount = 1\<rparr>, callers = [Admitted, Finished]\<rparr>"
    by (simp add: interleave_def serve_def caller_step_def LoadInt32_def
        CompareAndSwapInt32_def release_def AddInt32_def numeral_2_eq_2)
  have h': "0 \<le> sint MaxConcurrentClients'" by (simp add: MaxConcurrentClients'_def)
  from counter_in_range [OF h, of 2 "[0, 1, 0, 1, 1]"]
    counter_in_range [OF h', of 3 "[0, 1, 0, 2, 1, 2, 0]"] h h' e
  show ?thesis
    by (simp add: MaxConcurrentClients'_def)
qed

section \<open>Properties of the request handler\<close>

lemma onRequest_batch:
  assumes "onRequest unmarshal r c es sched = Some h" and "batch h = Some urls"
  shows "length urls \<le> MaxUrlsPerRequest \<and> Method r = ''POST'' \<and> fst (Acquire c es) = None \<and>
         readRequest unmarshal (Body r) = (urls, None)"
  using assms
  by (auto simp: onRequest_def split: if_splits prod.splits option.splits)

lemma onRequest_too_many:
  assumes "readRequest unmarshal (Body r) = (urls, None)" and "length urls > MaxUrlsPerRequest"
  shows "\<exists>h reason. onRequest unmarshal r c es sched = Some h \<and> batch h = None \<and>
           response h = Failure reason"
  using assms
  by (auto simp: onRequest_def split: if_splits prod.splits option.splits)

text \<open>
  C9. Whenever the handler calls \<open>downloadUrls\<close>, the URL list it passes has at most
  \<open>MaxUrlsPerRequest\<close> entries. A request whose body holds more URLs than that gets a
  failure response and \<open>downloadUrls\<close> is not called, whatever the method, the limiter
  and the schedule; when the request is a POST that the limiter admits, the check of the
  number of URLs is the one that fails, the reason is
  \<^verbatim>\<open>Number of urls exceeds the maximum\<close> and the slot is released.
\<close>

theorem batch_within_limit:
  "(\<forall>h urls. onRequest unmarshal r c es sched = Some h \<and> batch h = Some urls \<longrightarrow>
      length urls \<le> MaxUrlsPerRequest) \<and>
   (\<forall>urls. readRequest unmarshal (Body r) = (urls, None) \<and> length urls > MaxUrlsPerRequest \<longrightarrow>
      (\<exists>h reason. onRequest unmarshal r c es sched = Some h \<and> batch h = None \<and>
         response h = Failure reason) \<and>
      (\<forall>c'. Method r = ''POST'' \<and> Acquire c es = (None, c') \<longrightarrow>
         onRequest unmarshal r c es sched =
           Some \<lparr>header = None, response = Failure ''Number of urls exceeds the maximum'',
                 limiter = release c', batch = None\<rparr>))"
proof (intro conjI allI impI)
  fix h urls
  assume "onRequest unmarshal r c es sched = Some h \<and> batch h = Some urls"
  with onRequest_batch [of unmarshal r c es sched h urls]
  show "length urls \<le> MaxUrlsPerRequest" by simp
next
  fix urls
  assume "readRequest unmarshal (Body r) = (urls, None) \<and> length urls > MaxUrlsPerRequest"
  with onRequest_too_many [of unmarshal r urls c es sched]
  show "\<exists>h reason. onRequest unmarshal r c es sched = Some h \<and> batch h = None \<and>
         response h = Failure reason" by simp
next
  fix urls c'
  assume "readRequest unmarshal (Body r) = (urls, None) \<and> length urls > MaxUrlsPerRequest"
    and "Method r = ''POST'' \<and> Acquire c es = (None, c')"
  then show "onRequest unmarshal r c es sched =
           Some \<lparr>header = None, response = Failure ''Number of urls exceeds the maximum'',
                 limiter = release c', batch = None\<rparr>"
    by (simp add: onRequest_def)
qed

lemma downloadUrls_empty:
  "downloadUrls [] sched = (if 7 \<le> count_list sched Main then Some (Some [], None) else None)"
  by (simp add: downloadUrls_def pc_empty Let_def)

lemma decode_members_lacking:
  "list_all (\<lambda>(k, v). \<not> key k \<or> v = JNull) ms \<Longrightarrow>
   decode_members key ms urls saved = (case saved of None \<Rightarrow> Inr urls | Some e \<Rightarrow> Inl e)"
  by (induction ms arbitrary: urls saved) auto

lemma decode_request_lacking:
  "lacks_urls key j \<Longrightarrow> decode_request key j = Inr []"
  by (cases j) (simp_all add: lacks_urls_def decode_request_def decode_members_lacking)


text \<open>
  C10. Take a POST request that the limiter admits and whose body is read without error
  and is valid JSON: the value \<^verbatim>\<open>null\<close>, or an object in which every member whose key the
  decoder takes for the field \<^verbatim>\<open>urls\<close> has the value \<^verbatim>\<open>null\<close> (so also an object
  without such a member). Then \<open>readRequest\<close> returns no URL and no error, and the
  handler runs the empty batch: as soon as \<open>downloadUrls\<close> has returned (after seven steps
  of the orchestrator) the response is a success with an empty result list. The slot
  taken by \<open>Acquire\<close> is given back: the counter was raised from the value read to one
  more, and the handler leaves it at the value read.
\<close>

theorem no_urls_field:
  assumes "Method r = ''POST''" and "Body r = (data, None)"
    and "parse data = Inr j" and "lacks_urls key j"
    and "Acquire c es = (None, c')"
  shows "readRequest (json_Unmarshal parse key) (Body r) = ([], None) \<and>
         onRequest (json_Unmarshal parse key) r c es sched =
           (if 7 \<le> count_list sched Main
            then Some \<lparr>header = None, response = Success (Some []), limiter = release c',
                       batch = Some []\<rparr>
            else None) \<and>
         (\<exists>cur. Some cur \<in> set (Some (clientCount c) # es) \<and>
            c' = c\<lparr>clientCount := cur + 1\<rparr> \<and> sint (cur + 1) = sint cur + 1 \<and>
            release c' = c\<lparr>clientCount := cur\<rparr>)"
proof -
  from assms(3,4) have u: "json_Unmarshal parse key data = Inr []"
    by (simp add: json_Unmarshal_def decode_request_lacking)
  with assms(2) have rr: "readRequest (json_Unmarshal parse key) (Body r) = ([], None)"
    by (simp add: readRequest_def)
  with assms(1,5) have "onRequest (json_Unmarshal parse key) r c es sched =
           (if 7 \<le> count_list sched Main
            then Some \<lparr>header = None, response = Success (Some []), limiter = release c',
                       batch = Some []\<rparr>
            else None)"
    by (simp add: onRequest_def downloadUrls_empty MaxUrlsPerRequest_def)
  moreover from Acquire_general [of c es] assms(5) obtain cur where
    cur: "Some cur \<in> set (Some (clientCount c) # es)"
    "\<not> sint (MaxConcurrentClients c) \<le> sint cur" "c' = c\<lparr>clientCount := cur + 1\<rparr>"
    by (auto split: if_splits)
  from cur(2) have "sint cur < sint (MaxConcurrentClients c)" by simp
  from sint_succ [OF this] cur(1,3)
  have "\<exists>cur. Some cur \<in> set (Some (clientCount c) # es) \<and>
            c' = c\<lparr>clientCount := cur + 1\<rparr> \<and> sint (cur + 1) = sint cur + 1 \<and>
            release c' = c\<lparr>clientCount := cur\<rparr>"
    by (intro exI [of _ cur]) (simp add: release_def AddInt32_def)
  ultimately show ?thesis using rr by simp
qed


theorem batch_within_limit_witness:
  "readRequest (\<lambda>data. Inr (replicate 21 ''http://a'')) (Body \<lparr>Method = ''POST'', Body = (''x'', None)\<rparr>) =
     (replicate 21 ''http://a'', None) \<and>
   length (replicate 21 ''http://a'') > MaxUrlsPerRequest \<and>
   Acquire \<lparr>MaxConcurrentClients = 100, clientCount = 0\<rparr> [] =
     (None, \<lparr>MaxConcurrentClients = 100, clientCount = 1\<rparr>) \<and>
   onRequest (\<lambda>data. Inr (replicate 21 ''http://a'')) \<lparr>Method = ''POST'', Body = (''x'', None)\<rparr>
       \<lparr>MaxConcurrentClients = 100, clientCount = 0\<rparr> [] [] =
     Some \<lparr>header = None, response = Failure ''Number of urls exceeds the maximum'',
           limiter = \<lparr>MaxConcurrentClients = 100, clientCount = 0\<rparr>, batch = None\<rparr>"
proof -
  have a: "readRequest (\<lambda>data. Inr (replicate 21 ''http://a'')) (Body \<lparr>Method = ''POST'', Body = (''x'', None)\<rparr>) =
     (replicate 21 ''http://a'', None) \<and> length (replicate 21 ''http://a'') > MaxUrlsPerRequest"
    by (simp add: readRequest_def MaxUrlsPerRequest_def)
  have b: "Method \<lparr>Method = ''POST'', Body = (''x'', None)\<rparr> = ''POST'' \<and>
    Acquire \<lparr>MaxConcurrentClients = 100, clientCount = 0\<rparr> [] =
     (None, \<lparr>MaxConcurrentClients = 100, clientCount = 1\<rparr>)"
    by (simp add: Acquire_quiet)
  from batch_within_limit [of "\<lambda>data. Inr (replicate 21 ''http://a'')"
      "\<lparr>Method = ''POST'', Body = (''x'', None)\<rparr>" "\<lparr>MaxConcurrentClients = 100, clientCount = 0\<rparr>" "[]" "[]"]
    a b
  have "onRequest (\<lambda>data. Inr (replicate 21 ''http://a'')) \<lparr>Method = ''POST'', Body = (''x'', None)\<rparr>
       \<lparr>MaxConcurrentClients = 100, clientCount = 0\<rparr> [] [] =
     Some \<lparr>header = None, response = Failure ''Number of urls exceeds the maximum'',
           limiter = release \<lparr>MaxConcurrentClients = 100, clientCount = 1\<rparr>, batch = None\<rparr>"
    by blast
  with a b show ?thesis
    by (simp add: release_def AddInt32_def)
qed

lemma urls_key_upper: "urls_key ''URLS''" "urls_key ''urls''"
  by (simp_all add: urls_key_def ascii_upper_def)

theorem no_urls_field_witness:
  "Acquire \<lparr>MaxConcurrentClients = 100, clientCount = 0\<rparr> [] =
     (None, \<lparr>MaxConcurrentClients = 100, clientCount = 1\<rparr>) \<and>
   reads ''{}'' = Inr (JObject []) \<and> lacks_urls urls_key (JObject []) \<and>
   readRequest (json_Unmarshal reads urls_key) (''{}'', None) = ([], None) \<and>
   onRequest (json_Unmarshal reads urls_key) \<lparr>Method = ''POST'', Body = (''{}'', None)\<rparr>
       \<lparr>MaxConcurrentClients = 100, clientCount = 0\<rparr> []
       [Main, Main, Main, Main, Main, Main, Main] =
     Some \<lparr>header = None, response = Success (Some []),
           limiter = \<lparr>MaxConcurrentClients = 100, clientCount = 0\<rparr>, batch = Some []\<rparr>"
proof -
  have a: "Acquire \<lparr>MaxConcurrentClients = 100, clientCount = 0\<rparr> [] =
     (None, \<lparr>MaxConcurrentClients = 100, clientCount = 1\<rparr>)"
    by (simp add: Acquire_quiet)
  have p: "reads ''{}'' = Inr (JObject [])"
    by (simp add: reads_def)
  have l: "lacks_urls urls_key (JObject [])"
    by (simp add: lacks_urls_def)
  from no_urls_field [of "\<lparr>Method = ''POST'', Body = (''{}'', None)\<rparr>" "''{}''" reads
      "JObject []" urls_key "\<lparr>MaxConcurrentClients = 100, clientCount = 0\<rparr>" "[]"
      "\<lparr>MaxConcurrentClients = 100, clientCount = 1\<rparr>"
      "[Main, Main, Main, Main, Main, Main, Main]"] a p l
  show ?thesis
    by (simp add: release_def AddInt32_def)
qed

text \<open>
  Two bodies that are valid JSON and have no member with the key \<^verbatim>\<open>urls\<close>. The empty
  array: \<open>readRequest\<close> returns the error of the decoder and the handler answers with a
  failure. An object with the key \<^verbatim>\<open>URLS\<close>: \<open>readRequest\<close> returns the URL it holds.
\<close>

theorem field_missing_not_enough:
  "reads ''[]'' = Inr (JArray []) \<and> without_urls (JArray []) \<and>
   readRequest (json_Unmarshal reads urls_key) (''[]'', None) = ([], Some (value_error (JArray []))) \<and>
   onRequest (json_Unmarshal reads urls_key) \<lparr>Method = ''POST'', Body = (''[]'', None)\<rparr>
       \<lparr>MaxConcurrentClients = 100, clientCount = 0\<rparr> []
       [Main, Main, Main, Main, Main, Main, Main] =
     Some \<lparr>header = None, response = Failure (value_error (JArray [])),
           limiter = \<lparr>MaxConcurrentClients = 100, clientCount = 0\<rparr>, batch = None\<rparr> \<and>
   reads upper_case_body = Inr (JObject [(''URLS'', JArray [JString ''http://a''])]) \<and>
   without_urls (JObject [(''URLS'', JArray [JString ''http://a''])]) \<and>
   readRequest (json_Unmarshal reads urls_key) (upper_case_body, None) = ([''http://a''], None)"
  by (simp add: reads_def upper_case_body_def without_urls_def readRequest_def json_Unmarshal_def
      decode_request_def urls_key_upper earliest_def onRequest_def Acquire_quiet release_def
      AddInt32_def)

end
